theory Spec2Isabelle
  imports Main "HOL-Library.Word" "HOL-Library.AList"
begin

section \<open>Bytes, the byte stream and the errors\<close>

text \<open>
  Python \<open>bytes\<close> are lists of 8-bit words. A \<open>BytesIO\<close> stream is the list of the
  bytes not read yet: \<open>b.read(n)\<close> returns \<open>take n b\<close> (fewer than \<open>n\<close> bytes at the end
  of the buffer, without raising) and leaves \<open>drop n b\<close>.
\<close>

type_synonym byte = "8 word"
type_synonym bytes = "byte list"

text \<open>
  The exceptions the record layer can raise. \<open>KeyError\<close> is Python's own missing-key
  error of a \<open>dict\<close> subscript; \<open>PackError\<close> stands for the failure of \<open>s.pack\<close> on
  a length that does not fit the length prefix.
\<close>

datatype error =
    FormatError
  | DataIntegrityError nat bytes
  | StructureError nat
  | DecryptionError
  | KeyError bytes
  | PackError

section \<open>The struct helpers of module \<open>s\<close>\<close>

text \<open>
  Modelled from the spec: \<open>s.BL\<close>, the width of a field identifier, is not under src/.
  The spec's sentinel is \<open>0x00 \<times> BL\<close>, the source compares the identifier with the
  one-byte literal \<open>b"\0"\<close>, appends that literal in \<open>full_entry\<close> and names the
  password fields with one byte each: the width is 1.
\<close>

definition BL :: nat where
  "BL = 1"

text \<open>
  Modelled from the spec: \<open>s.L\<close>, \<open>s.pack\<close> and \<open>s.sunpack\<close> are not under src/.
  The spec frames a value as \<open>Length(L bytes)\<close>, a fixed-width unsigned integer in a
  fixed byte order; the source passes \<open>s.L\<close> as a struct format (\<open>s.pack(s.L, n)\<close>),
  and the format \<open>L\<close> is four bytes wide. The byte order taken here is little-endian;
  no property below depends on it beyond \<open>sunpack\<close> inverting \<open>pack\<close>.
\<close>

definition LL :: nat where
  "LL = 4"

fun le_bytes :: "nat \<Rightarrow> nat \<Rightarrow> bytes" where
  "le_bytes 0 n = []"
| "le_bytes (Suc w) n = word_of_nat (n mod 256) # le_bytes w (n div 256)"

fun le_nat :: "bytes \<Rightarrow> nat" where
  "le_nat [] = 0"
| "le_nat (x # xs) = unat x + 256 * le_nat xs"

text \<open>
  Modelled from the spec: \<open>s.pack(s.L, n)\<close> emits \<open>n\<close> in \<open>L\<close> bytes; a length
  outside the range of the prefix cannot be emitted (the spec bounds values "by the length
  field's range") and fails.
\<close>

definition pack_L :: "nat \<Rightarrow> error + bytes" where
  "pack_L n = (if n < 256 ^ LL then Inr (le_bytes LL n) else Inl PackError)"

text \<open>
  Modelled from the spec: \<open>s.sunpack(s.L, b)\<close> reads the \<open>L\<close>-byte length from the
  stream. The source under src/ raises \<open>FormatError\<close> nowhere itself; the spec's
  truncation failures ("fewer bytes remain than a declared length requires", "the buffer
  ends without a sentinel") can only come from this read, so a read of fewer than \<open>L\<close>
  bytes is modelled as raising \<open>FormatError\<close>. The result is the length and the rest
  of the stream.
\<close>

definition sunpack_L :: "bytes \<Rightarrow> error + (nat \<times> bytes)" where
  "sunpack_L b =
     (if length (take LL b) < LL then Inl FormatError
      else Inr (le_nat (take LL b), drop LL b))"

section \<open>The container context and the crypto collaborator\<close>

text \<open>
  \<open>header.PdbHeader\<close>: the attributes the record layer reads. Python integers are
  unbounded, hence \<open>int\<close>.
\<close>

record pdb_header =
  password :: bytes
  salt :: bytes
  hash_id :: int
  kdf_passes :: int
  hash_salt_len :: int
  sec_crypto_passes :: int
  zstd_comp_lvl :: int
  entries :: bytes

text \<open>
  The functions of modules \<open>crypt\<close> and \<open>header\<close> are not under src/ and are taken as
  parameters, with the argument order of the calls in the source. \<open>decrypt\<close> is
  \<open>PdbHeader.decrypt\<close> (it returns the header as the call leaves it, or raises), \<open>ds\<close>
  is \<open>PdbHeader.ds\<close>, the digest size. A cipher that draws randomness is one such
  function per draw.
\<close>

record collab =
  hash_walgo :: "int \<Rightarrow> bytes \<Rightarrow> bytes \<Rightarrow> bytes \<Rightarrow> int \<Rightarrow> int \<Rightarrow> bytes"
  hash_walgo_compare :: "int \<Rightarrow> bytes \<Rightarrow> bytes \<Rightarrow> bytes \<Rightarrow> int \<Rightarrow> int \<Rightarrow> bytes \<Rightarrow> bool"
  encrypt_secure :: "bytes \<Rightarrow> bytes \<Rightarrow> bytes \<Rightarrow> int \<Rightarrow> int \<Rightarrow> int \<Rightarrow> int \<Rightarrow> int \<Rightarrow> bytes"
  decrypt_secure :: "bytes \<Rightarrow> bytes \<Rightarrow> bytes \<Rightarrow> int \<Rightarrow> int \<Rightarrow> int \<Rightarrow> int \<Rightarrow> error + bytes"
  decrypt :: "pdb_header \<Rightarrow> error + pdb_header"
  ds :: "pdb_header \<Rightarrow> nat"

section \<open>Entries\<close>

text \<open>
  The two concrete classes are the two values of \<open>entry_t\<close>. The \<open>fields\<close> dict
  (here \<open>fields_d\<close>: the record package owns the name \<open>fields\<close>) is an association
  list in insertion order with unique keys: \<open>AList.update\<close> overwrites a key in place
  and appends a new one, as a Python \<open>dict\<close> does. An entry carries its header by value:
  no operation below changes a header after an entry that refers to it was built. An
  operation on an entry that raises returns the error alone; the fields it stored before
  the raise are not observed by any property below.
\<close>

datatype variant = PdbRawEntry | PdbPwdEntry

record pdb_entry =
  entry_t :: variant
  entry_id :: nat
  head :: pdb_header
  ehash :: bytes
  fields_d :: "(bytes \<times> bytes) list"

abbreviation b_n :: bytes where "b_n \<equiv> [0x6E]"
abbreviation b_u :: bytes where "b_u \<equiv> [0x75]"
abbreviation b_p :: bytes where "b_p \<equiv> [0x70]"
abbreviation b_r :: bytes where "b_r \<equiv> [0x72]"

definition all_fields :: "bytes list" where
  "all_fields = [b_n, b_u, b_p, b_r]"

definition encrypted_fields :: "bytes list" where
  "encrypted_fields = [b_u, b_p]"

definition set_field_raw :: "pdb_entry \<Rightarrow> bytes \<Rightarrow> bytes \<Rightarrow> pdb_entry" where
  "set_field_raw e name v = e\<lparr>fields_d := AList.update name v (fields_d e)\<rparr>"

definition get_field_raw :: "pdb_entry \<Rightarrow> bytes \<Rightarrow> error + bytes" where
  "get_field_raw e name =
     (case map_of (fields_d e) name of
        None \<Rightarrow> Inl (KeyError name)
      | Some v \<Rightarrow> Inr v)"

definition contains :: "pdb_entry \<Rightarrow> bytes \<Rightarrow> bool" where
  "contains e name = (name \<in> set (map fst (fields_d e)))"

definition get_crypt :: "collab \<Rightarrow> pdb_entry \<Rightarrow> bytes \<Rightarrow> error + bytes" where
  "get_crypt c e name =
     (case get_field_raw e name of
        Inl err \<Rightarrow> Inl err
      | Inr raw \<Rightarrow>
          decrypt_secure c raw (password (head e)) (salt (head e)) (hash_id (head e))
            (hash_salt_len (head e)) (sec_crypto_passes (head e)) (kdf_passes (head e)))"

definition set_crypt :: "collab \<Rightarrow> pdb_entry \<Rightarrow> bytes \<Rightarrow> bytes \<Rightarrow> pdb_entry" where
  "set_crypt c e name v =
     set_field_raw e name
       (encrypt_secure c v (password (head e)) (salt (head e)) (hash_id (head e))
          (hash_salt_len (head e)) (sec_crypto_passes (head e)) (kdf_passes (head e))
          (zstd_comp_lvl (head e)))"

definition set_field :: "collab \<Rightarrow> pdb_entry \<Rightarrow> bytes \<Rightarrow> bytes \<Rightarrow> pdb_entry" where
  "set_field c e name v =
     (case entry_t e of
        PdbRawEntry \<Rightarrow> set_field_raw e name v
      | PdbPwdEntry \<Rightarrow>
          (if name \<in> set encrypted_fields then set_crypt c e name v
           else set_field_raw e name v))"

definition get_field :: "collab \<Rightarrow> pdb_entry \<Rightarrow> bytes \<Rightarrow> error + bytes" where
  "get_field c e name =
     (case entry_t e of
        PdbRawEntry \<Rightarrow> get_field_raw e name
      | PdbPwdEntry \<Rightarrow>
          (if name \<in> set encrypted_fields then get_crypt c e name
           else get_field_raw e name))"

definition validate_struct :: "pdb_entry \<Rightarrow> error + pdb_entry" where
  "validate_struct e =
     (case entry_t e of
        PdbRawEntry \<Rightarrow> Inr e
      | PdbPwdEntry \<Rightarrow>
          (if \<not> list_all (\<lambda>field. field \<in> set (map fst (fields_d e))) all_fields
           then Inl (StructureError (entry_id e))
           else Inr e))"

text \<open>
  \<open>PdbEntry.__init__\<close>: the entry takes the value of the process-wide counter as its id
  and the counter goes up by one; the fields given, if any, go through \<open>set_field\<close>. The
  counter is passed in and returned.
\<close>

definition new_entry ::
  "collab \<Rightarrow> variant \<Rightarrow> pdb_header \<Rightarrow> bytes \<Rightarrow> (bytes \<times> bytes) list \<Rightarrow> nat \<Rightarrow> pdb_entry \<times> nat" where
  "new_entry c t hdr h flds nid =
     (foldl (\<lambda>e (name, v). set_field c e name v)
        \<lparr>entry_t = t, entry_id = nid, head = hdr, ehash = h, fields_d = []\<rparr> flds,
      nid + 1)"

subsection \<open>Encoding\<close>

fun encode_fields :: "(bytes \<times> bytes) list \<Rightarrow> error + bytes" where
  "encode_fields [] = Inr []"
| "encode_fields ((field, data) # rest) =
     (case pack_L (length data) of
        Inl err \<Rightarrow> Inl err
      | Inr l \<Rightarrow>
          (case encode_fields rest of
             Inl err \<Rightarrow> Inl err
           | Inr bs \<Rightarrow> Inr (field @ l @ data @ bs)))"

definition entry :: "pdb_entry \<Rightarrow> error + bytes" where
  "entry e = encode_fields (fields_d e)"

definition full_entry :: "pdb_entry \<Rightarrow> error + bytes" where
  "full_entry e =
     (case entry e of
        Inl err \<Rightarrow> Inl err
      | Inr bs \<Rightarrow> Inr (ehash e @ bs @ [0]))"

subsection \<open>The integrity tag\<close>

definition rehash :: "collab \<Rightarrow> pdb_entry \<Rightarrow> error + pdb_entry" where
  "rehash c e =
     (case entry e of
        Inl err \<Rightarrow> Inl err
      | Inr bs \<Rightarrow>
          Inr (e\<lparr>ehash := hash_walgo c (hash_id (head e)) bs (password (head e))
                 (salt (head e)) (kdf_passes (head e)) (hash_salt_len (head e))\<rparr>))"

definition hash_ok :: "collab \<Rightarrow> pdb_entry \<Rightarrow> error + bool" where
  "hash_ok c e =
     (case entry e of
        Inl err \<Rightarrow> Inl err
      | Inr bs \<Rightarrow>
          Inr (hash_walgo_compare c (hash_id (head e)) bs (password (head e))
                 (salt (head e)) (kdf_passes (head e)) (hash_salt_len (head e)) (ehash e)))"

definition revalidate :: "collab \<Rightarrow> pdb_entry \<Rightarrow> error + pdb_entry" where
  "revalidate c e =
     (case hash_ok c e of
        Inl err \<Rightarrow> Inl err
      | Inr ok \<Rightarrow>
          (if \<not> ok then Inl (DataIntegrityError (entry_id e) (ehash e)) else Inr e))"

subsection \<open>Decoding\<close>

text \<open>
  The loop of \<open>from_entry\<close>: each field goes through the subscript assignment, that is
  through the variant's \<open>set_field\<close>. The loop returns the entry and the rest of the
  stream; \<open>from_entry\<close> returns the entry alone.
\<close>

function from_entry_loop :: "collab \<Rightarrow> bytes \<Rightarrow> pdb_entry \<Rightarrow> error + (pdb_entry \<times> bytes)" where
  "from_entry_loop c b e =
     (if take BL b \<noteq> [0] then
        (case sunpack_L (drop BL b) of
           Inl err \<Rightarrow> Inl err
         | Inr (n, b2) \<Rightarrow> from_entry_loop c (drop n b2) (set_field c e (take BL b) (take n b2)))
      else Inr (e, drop BL b))"
  by pat_completeness auto
termination
  by (relation "measure (\<lambda>(c, b, e). length b)")
     (auto simp: sunpack_L_def LL_def split: if_splits)

declare from_entry_loop.simps [simp del]

definition from_entry :: "collab \<Rightarrow> pdb_entry \<Rightarrow> bytes \<Rightarrow> error + pdb_entry" where
  "from_entry c e bs =
     (case from_entry_loop c bs e of
        Inl err \<Rightarrow> Inl err
      | Inr (e', rest) \<Rightarrow> Inr e')"

text \<open>The inline field loop of \<open>PdbEntries.gather\<close>: it stores with \<open>set_field_raw\<close>.\<close>

function gather_fields :: "bytes \<Rightarrow> pdb_entry \<Rightarrow> error + (pdb_entry \<times> bytes)" where
  "gather_fields b e =
     (if take BL b \<noteq> [0] then
        (case sunpack_L (drop BL b) of
           Inl err \<Rightarrow> Inl err
         | Inr (n, b2) \<Rightarrow> gather_fields (drop n b2) (set_field_raw e (take BL b) (take n b2)))
      else Inr (e, drop BL b))"
  by pat_completeness auto
termination
  by (relation "measure (\<lambda>(b, e). length b)")
     (auto simp: sunpack_L_def LL_def split: if_splits)

declare gather_fields.simps [simp del]

section \<open>The collection\<close>

text \<open>
  \<open>PdbEntries\<close>: the list of entries and the header (\<open>chead\<close>, the attribute \<open>head\<close> of
  the collection). The collection is mutated in place, so an operation returns the state
  it leaves behind together with the exception raised, if any: \<open>None\<close> is a normal return.
\<close>

record pdb_entries =
  ents :: "pdb_entry list"
  chead :: pdb_header

definition add_entry :: "collab \<Rightarrow> pdb_entries \<Rightarrow> pdb_entry \<Rightarrow> error option \<times> pdb_entries" where
  "add_entry c self e =
     (case revalidate c e of
        Inl err \<Rightarrow> (Some err, self)
      | Inr e1 \<Rightarrow>
          (case validate_struct e1 of
             Inl err \<Rightarrow> (Some err, self)
           | Inr e2 \<Rightarrow> (None, self\<lparr>ents := ents self @ [e2]\<rparr>)))"

text \<open>
  The outer loop of \<open>gather\<close> over the stream \<open>b\<close>, with the entry-id counter \<open>nid\<close> and
  the list \<open>es\<close> that \<open>self.ents\<close> holds so far. Each round appends to the list before the
  next round starts, so the list returned with an error is the list at the time of the
  raise.
\<close>

function gather_loop ::
  "collab \<Rightarrow> variant \<Rightarrow> pdb_header \<Rightarrow> bytes \<Rightarrow> nat \<Rightarrow> pdb_entry list
     \<Rightarrow> error option \<times> nat \<times> pdb_entry list" where
  "gather_loop c t hdr b nid es =
     (if take (ds c hdr) b \<noteq> [] then
        (case new_entry c t hdr (take (ds c hdr) b) [] nid of
           (e, nid') \<Rightarrow>
             (case gather_fields (drop (ds c hdr) b) e of
                Inl err \<Rightarrow> (Some err, nid', es)
              | Inr (e1, b1) \<Rightarrow>
                  (case revalidate c e1 of
                     Inl err \<Rightarrow> (Some err, nid', es)
                   | Inr e2 \<Rightarrow>
                       (case validate_struct e2 of
                          Inl err \<Rightarrow> (Some err, nid', es)
                        | Inr e3 \<Rightarrow> gather_loop c t hdr b1 nid' (es @ [e3])))))
      else (None, nid, es))"
  by pat_completeness auto

definition gather ::
  "collab \<Rightarrow> variant \<Rightarrow> nat \<Rightarrow> pdb_entries \<Rightarrow> error option \<times> nat \<times> pdb_entries" where
  "gather c t nid self =
     (case decrypt c (chead self) of
        Inl err \<Rightarrow> (Some err, nid, self)
      | Inr hdr \<Rightarrow>
          (if entries hdr = [] then (None, nid, self\<lparr>chead := hdr\<rparr>)
           else
             (case gather_loop c t hdr (entries hdr) nid (ents self) of
                (r, nid', es) \<Rightarrow> (r, nid', self\<lparr>chead := hdr, ents := es\<rparr>))))"

section \<open>The bytes a field loop reads\<close>

text \<open>
  The two field loops of the source differ only in the store they call. \<open>decode_fields\<close>
  is that loop with the store left out: it returns the (identifier, value) pairs in the
  order read, and the rest of the stream. It is a device for the proofs; each loop of the
  source is shown below to be this reading followed by its own stores.
\<close>

function decode_fields :: "bytes \<Rightarrow> error + ((bytes \<times> bytes) list \<times> bytes)" where
  "decode_fields b =
     (if take BL b \<noteq> [0] then
        (case sunpack_L (drop BL b) of
           Inl err \<Rightarrow> Inl err
         | Inr (n, b2) \<Rightarrow>
             (case decode_fields (drop n b2) of
                Inl err \<Rightarrow> Inl err
              | Inr (recs, rest) \<Rightarrow> Inr ((take BL b, take n b2) # recs, rest)))
      else Inr ([], drop BL b))"
  by pat_completeness auto
termination
  by (relation "measure length")
     (auto simp: sunpack_L_def LL_def split: if_splits)

declare decode_fields.simps [simp del]

text \<open>
  The identifiers a field record can carry on the wire: \<open>BL\<close> bytes wide and not the
  sentinel.
\<close>

definition wire_fields :: "(bytes \<times> bytes) list \<Rightarrow> bool" where
  "wire_fields recs = list_all (\<lambda>(name, v). length name = BL \<and> name \<noteq> [0]) recs"

section \<open>Names for the statements\<close>

text \<open>
  The cipher calls of \<open>_set_crypt\<close> and \<open>_get_crypt\<close> with the parameters of a header,
  the value \<open>set_field\<close> of a Password entry puts into the store, and the number of
  entries a run has constructed beyond those it admitted (one when it raised).
\<close>

definition field_encrypt :: "collab \<Rightarrow> pdb_header \<Rightarrow> bytes \<Rightarrow> bytes" where
  "field_encrypt c hdr v =
     encrypt_secure c v (password hdr) (salt hdr) (hash_id hdr) (hash_salt_len hdr)
       (sec_crypto_passes hdr) (kdf_passes hdr) (zstd_comp_lvl hdr)"



definition pwd_store_value :: "collab \<Rightarrow> pdb_header \<Rightarrow> bytes \<Rightarrow> bytes \<Rightarrow> bytes" where
  "pwd_store_value c hdr name v =
     (if name \<in> set encrypted_fields then field_encrypt c hdr v else v)"

definition raised :: "error option \<Rightarrow> nat" where
  "raised r = (case r of None \<Rightarrow> 0 | Some err \<Rightarrow> 1)"

section \<open>The entries of a blob\<close>

text \<open>
  \<open>gather_one\<close> is one round of the outer loop of \<open>gather\<close> after the tag was read
  non-empty: the entry is built from the tag, its fields are read, and the two gates are
  applied; the result is the entry to append and the rest of the stream. A chunk is one
  \<open>EntryRecord\<close> of the wire format seen as data: the tag, the field records in wire
  order, and the bytes of their encoding. \<open>gather_entry\<close> is the entry the loop builds
  from a tag and the records, and \<open>chunk_entries\<close> lists the entries of successive
  chunks, with successive ids.
\<close>

type_synonym chunk = "bytes \<times> (bytes \<times> bytes) list \<times> bytes"

definition gather_one ::
  "collab \<Rightarrow> variant \<Rightarrow> pdb_header \<Rightarrow> bytes \<Rightarrow> nat \<Rightarrow> error + (pdb_entry \<times> bytes)" where
  "gather_one c t hdr b nid =
     (case gather_fields (drop (ds c hdr) b)
             (fst (new_entry c t hdr (take (ds c hdr) b) [] nid)) of
        Inl err \<Rightarrow> Inl err
      | Inr (e1, b1) \<Rightarrow>
          (case revalidate c e1 of
             Inl err \<Rightarrow> Inl err
           | Inr e2 \<Rightarrow>
               (case validate_struct e2 of
                  Inl err \<Rightarrow> Inl err
                | Inr e3 \<Rightarrow> Inr (e3, b1))))"

definition gather_entry ::
  "variant \<Rightarrow> pdb_header \<Rightarrow> nat \<Rightarrow> bytes \<Rightarrow> (bytes \<times> bytes) list \<Rightarrow> pdb_entry" where
  "gather_entry t hdr nid tag recs =
     foldl (\<lambda>e (name, v). set_field_raw e name v)
       \<lparr>entry_t = t, entry_id = nid, head = hdr, ehash = tag, fields_d = []\<rparr> recs"

definition chunk_ok :: "collab \<Rightarrow> pdb_header \<Rightarrow> chunk \<Rightarrow> bool" where
  "chunk_ok c hdr ch =
     (case ch of (tag, recs, pre) \<Rightarrow>
        tag \<noteq> [] \<and> length tag = ds c hdr \<and> wire_fields recs \<and> encode_fields recs = Inr pre)"

definition chunk_bytes :: "chunk \<Rightarrow> bytes" where
  "chunk_bytes ch = (case ch of (tag, recs, pre) \<Rightarrow> tag @ pre @ [0])"

fun chunk_entries :: "variant \<Rightarrow> pdb_header \<Rightarrow> nat \<Rightarrow> chunk list \<Rightarrow> pdb_entry list" where
  "chunk_entries t hdr nid [] = []"
| "chunk_entries t hdr nid ((tag, recs, pre) # chs) =
     gather_entry t hdr nid tag recs # chunk_entries t hdr (Suc nid) chs"

definition passes_gates :: "collab \<Rightarrow> pdb_entry \<Rightarrow> bool" where
  "passes_gates c x = (revalidate c x = Inr x \<and> validate_struct x = Inr x)"

section \<open>Sample data\<close>

text \<open>
  A header, a collaborator and two fresh entries, for evaluating the operations on
  concrete inputs. \<open>toy\<close> tags an entry with one byte (the length of its field area plus
  one); it encrypts by prefixing \<open>0xFF\<close> and decrypts by removing that byte, failing
  with \<open>DecryptionError\<close> on anything else.
\<close>

definition hdr0 :: pdb_header where
  "hdr0 = \<lparr>password = [0x70, 0x77], salt = [], hash_id = 0, kdf_passes = 1,
           hash_salt_len = 0, sec_crypto_passes = 1, zstd_comp_lvl = 0, entries = []\<rparr>"

definition toy :: collab where
  "toy = \<lparr>hash_walgo = (\<lambda>hid data pw sl kdf hsl. [word_of_nat (length data) + 1]),
          hash_walgo_compare = (\<lambda>hid data pw sl kdf hsl tag. tag = [word_of_nat (length data) + 1]),
          encrypt_secure = (\<lambda>x pw sl hid hsl scp kdf zl. 0xFF # x),
          decrypt_secure = (\<lambda>x pw sl hid hsl scp kdf.
             (case x of [] \<Rightarrow> Inl DecryptionError
              | y # ys \<Rightarrow> if y = 0xFF then Inr ys else Inl DecryptionError)),
          decrypt = (\<lambda>h. Inr h),
          ds = (\<lambda>h. 1)\<rparr>"

definition pwd0 :: pdb_entry where
  "pwd0 = \<lparr>entry_t = PdbPwdEntry, entry_id = 7, head = hdr0, ehash = [], fields_d = []\<rparr>"

definition raw0 :: pdb_entry where
  "raw0 = \<lparr>entry_t = PdbRawEntry, entry_id = 3, head = hdr0, ehash = [], fields_d = []\<rparr>"

text \<open>
  A blob of two Raw entries without fields under \<open>toy\<close>: the first with the right tag,
  the second with a wrong one; and the entry \<open>gather\<close> builds from the first.
\<close>

definition blob2 :: bytes where
  "blob2 = [1, 0, 9, 0]"

definition admitted0 :: pdb_entry where
  "admitted0 = \<lparr>entry_t = PdbRawEntry, entry_id = 0, head = hdr0\<lparr>entries := blob2\<rparr>,
                ehash = [1], fields_d = []\<rparr>"

section \<open>Termination of the outer loop\<close>

lemma gather_fields_shorter:
  "gather_fields b e = Inr (e', r) \<Longrightarrow> length r < length b"
proof (induction b e rule: gather_fields.induct)
  case (1 b e)
  show ?case
  proof (cases "take BL b = [0]")
    case True
    with "1.prems" have "r = drop BL b" and "b \<noteq> []"
      by (auto simp: gather_fields.simps [of b e])
    then show ?thesis by (simp add: BL_def)
  next
    case False
    with "1.prems" obtain n b2 where
      s: "sunpack_L (drop BL b) = Inr (n, b2)" and
      g: "gather_fields (drop n b2) (set_field_raw e (take BL b) (take n b2)) = Inr (e', r)"
      by (auto simp: gather_fields.simps [of b e] split: sum.splits)
    from "1.IH" [OF False s refl g] have "length r < length (drop n b2)" .
    moreover from s have "length b2 \<le> length b"
      by (auto simp: sunpack_L_def split: if_splits)
    ultimately show ?thesis by simp
  qed
qed

termination gather_loop
  by (relation "measure (\<lambda>(c, t, hdr, b, nid, es). length b)")
     (auto dest!: gather_fields_shorter)

declare gather_loop.simps [simp del]


section \<open>Length prefixes\<close>

lemma length_le_bytes: "length (le_bytes w n) = w"
  by (induction w arbitrary: n) auto

lemma le_nat_le_bytes: "n < 256 ^ w \<Longrightarrow> le_nat (le_bytes w n) = n"
proof (induction w arbitrary: n)
  case 0
  then show ?case by simp
next
  case (Suc w)
  have "n div 256 < 256 ^ w"
    using Suc.prems by (simp add: less_mult_imp_div_less mult.commute)
  then have "le_nat (le_bytes w (n div 256)) = n div 256" by (rule Suc.IH)
  moreover have "unat (word_of_nat (n mod 256) :: byte) = n mod 256"
    by (simp add: unat_of_nat)
  ultimately show ?case by simp
qed

lemma le_nat_bound: "le_nat bs < 256 ^ length bs"
proof (induction bs)
  case Nil
  then show ?case by simp
next
  case (Cons x xs)
  have "unat x < 256" using unsigned_less [of x, where ?'a = nat] by simp
  with Cons show ?case by simp
qed

lemma le_bytes_le_nat: "le_bytes (length bs) (le_nat bs) = bs"
proof (induction bs)
  case Nil
  then show ?case by simp
next
  case (Cons x xs)
  have x: "unat x < 256" using unsigned_less [of x, where ?'a = nat] by simp
  then have "(unat x + 256 * le_nat xs) mod 256 = unat x"
    and "(unat x + 256 * le_nat xs) div 256 = le_nat xs"
    by simp_all
  with Cons show ?case by simp
qed

lemma sunpack_L_Inr:
  "sunpack_L b = Inr (n, b2) \<longleftrightarrow> LL \<le> length b \<and> n = le_nat (take LL b) \<and> b2 = drop LL b"
  by (auto simp: sunpack_L_def)

lemma sunpack_L_Inl: "sunpack_L b = Inl err \<longleftrightarrow> length b < LL \<and> err = FormatError"
  by (auto simp: sunpack_L_def)

lemma sunpack_pack:
  "pack_L n = Inr l \<Longrightarrow> sunpack_L (l @ b) = Inr (n, b)"
  by (auto simp: pack_L_def sunpack_L_def length_le_bytes le_nat_le_bytes split: if_splits)

lemma decode_fields_error: "decode_fields b = Inl err \<Longrightarrow> err = FormatError"
proof (induction b rule: decode_fields.induct)
  case (1 b)
  then show ?case
    by (subst (asm) (2) decode_fields.simps)
       (auto simp: sunpack_L_Inl split: if_splits sum.splits)
qed

lemma from_entry_loop_decode:
  "from_entry_loop c b e =
     (case decode_fields b of
        Inl err \<Rightarrow> Inl err
      | Inr (recs, rest) \<Rightarrow> Inr (foldl (\<lambda>e (name, v). set_field c e name v) e recs, rest))"
proof (induction b arbitrary: e rule: decode_fields.induct)
  case (1 b)
  show ?case
    by (subst from_entry_loop.simps, subst decode_fields.simps)
       (auto simp: "1.IH" split: sum.splits)
qed

lemma gather_fields_decode:
  "gather_fields b e =
     (case decode_fields b of
        Inl err \<Rightarrow> Inl err
      | Inr (recs, rest) \<Rightarrow> Inr (foldl (\<lambda>e (name, v). set_field_raw e name v) e recs, rest))"
proof (induction b arbitrary: e rule: decode_fields.induct)
  case (1 b)
  show ?case
    by (subst gather_fields.simps, subst decode_fields.simps)
       (auto simp: "1.IH" split: sum.splits)
qed

lemma decode_fields_encoded:
  "wire_fields recs \<Longrightarrow> encode_fields recs = Inr pre \<Longrightarrow>
   decode_fields (pre @ [0] @ rest) = Inr (recs, rest)"
proof (induction recs arbitrary: pre)
  case Nil
  then show ?case by (simp add: decode_fields.simps [of "0 # rest"] BL_def)
next
  case (Cons r recs)
  obtain name v where r: "r = (name, v)" by (cases r)
  from Cons.prems r obtain l bs where
    l: "pack_L (length v) = Inr l" and bs: "encode_fields recs = Inr bs" and
    pre: "pre = name @ l @ v @ bs"
    by (auto split: sum.splits)
  from Cons.prems r have nm: "length name = BL" "name \<noteq> [0]" and wf: "wire_fields recs"
    by (simp_all add: wire_fields_def)
  have ih: "decode_fields (bs @ [0] @ rest) = Inr (recs, rest)"
    using Cons.IH [OF wf bs] .
  have "sunpack_L (l @ v @ bs @ [0] @ rest) = Inr (length v, v @ bs @ [0] @ rest)"
    using l by (rule sunpack_pack)
  with nm ih show ?case
    by (subst decode_fields.simps) (simp add: pre r)
qed

lemma decode_fields_shape:
  "decode_fields b = Inr (recs, rest) \<Longrightarrow>
   wire_fields recs \<and> (\<exists>pre. encode_fields recs = Inr pre \<and> b = pre @ [0] @ rest)"
proof (induction b arbitrary: recs rule: decode_fields.induct)
  case (1 b)
  show ?case
  proof (cases "take BL b = [0]")
    case True
    with "1.prems" have "recs = []" "rest = drop BL b"
      by (auto simp: decode_fields.simps [of b])
    moreover from True have "b = [0] @ drop BL b"
      by (metis append_take_drop_id)
    ultimately show ?thesis by (auto simp: wire_fields_def)
  next
    case False
    with "1.prems" obtain n b2 recs' where
      s: "sunpack_L (drop BL b) = Inr (n, b2)" and
      d: "decode_fields (drop n b2) = Inr (recs', rest)" and
      recs: "recs = (take BL b, take n b2) # recs'"
      by (auto simp: decode_fields.simps [of b] split: sum.splits)
    from "1.IH" [OF False s refl d] obtain pre' where
      wf: "wire_fields recs'" and enc: "encode_fields recs' = Inr pre'" and
      shape: "drop n b2 = pre' @ [0] @ rest"
      by blast
    from s have len: "LL \<le> length (drop BL b)" and n: "n = le_nat (take LL (drop BL b))"
      and b2: "b2 = drop LL (drop BL b)"
      by (simp_all add: sunpack_L_Inr)
    from shape have "drop n b2 \<noteq> []" by simp
    then have nle: "n \<le> length b2" by simp
    have lt: "length (take LL (drop BL b)) = LL" using len by simp
    have "n < 256 ^ LL" using le_nat_bound [of "take LL (drop BL b)"] n lt by simp
    moreover have "le_bytes LL n = take LL (drop BL b)"
      using le_bytes_le_nat [of "take LL (drop BL b)"] n lt by simp
    ultimately have pk: "pack_L n = Inr (take LL (drop BL b))"
      by (simp add: pack_L_def)
    have id1: "length (take BL b) = BL" using len by (simp add: BL_def LL_def)
    have "take n b2 @ drop n b2 = drop LL (drop BL b)"
      by (simp only: append_take_drop_id b2)
    then have "b = take BL b @ take LL (drop BL b) @ take n b2 @ drop n b2"
      by (simp only: append_take_drop_id)
    with shape have "b = (take BL b @ take LL (drop BL b) @ take n b2 @ pre') @ [0] @ rest"
      by simp
    moreover have "encode_fields recs = Inr (take BL b @ take LL (drop BL b) @ take n b2 @ pre')"
      using nle by (simp add: recs pk enc min_absorb2)
    moreover have "wire_fields recs"
      using wf False id1 by (simp add: wire_fields_def recs)
    ultimately show ?thesis by blast
  qed
qed


section \<open>Reading fields\<close>

lemma contains_map_of: "contains e name \<longleftrightarrow> map_of (fields_d e) name \<noteq> None"
  by (simp add: contains_def map_of_eq_None_iff)

text \<open>
  C10. Reading a name that is not in the field store raises \<open>KeyError\<close>, and no other
  kind of error: so does \<open>get_field_raw\<close>, so does \<open>get_field\<close> of a Raw entry, and so
  does \<open>get_field\<close> of a Password entry for every name, the encrypted ones included,
  since the raw read comes before the call of the cipher.
\<close>

theorem absent_field_KeyError:
  "\<not> contains e name \<Longrightarrow>
   get_field_raw e name = Inl (KeyError name) \<and> get_field c e name = Inl (KeyError name)"
  by (auto simp: contains_map_of get_field_raw_def get_field_def get_crypt_def
           split: variant.splits)

theorem absent_field_KeyError_witness:
  "get_field_raw (raw0\<lparr>fields_d := [(b_n, [1])]\<rparr>) b_u = Inl (KeyError b_u)
   \<and> get_field toy (raw0\<lparr>fields_d := [(b_n, [1])]\<rparr>) b_u = Inl (KeyError b_u)
   \<and> get_field toy pwd0 b_u = Inl (KeyError b_u)
   \<and> get_field toy pwd0 b_n = Inl (KeyError b_n)"
  using absent_field_KeyError [of "raw0\<lparr>fields_d := [(b_n, [1])]\<rparr>" b_u toy]
    absent_field_KeyError [of pwd0 b_u toy] absent_field_KeyError [of pwd0 b_n toy]
  by (simp add: contains_def raw0_def pwd0_def)

section \<open>The structural gate\<close>

text \<open>
  C7. \<open>validate_struct\<close> of a Password entry raises \<open>StructureError\<close> with the entry's
  id exactly when one of the names \<open>n\<close>, \<open>u\<close>, \<open>p\<close>, \<open>r\<close> is missing from the field
  store; when the four are there it returns the entry, whatever their values and whatever
  other fields the store holds.
\<close>

theorem validate_struct_pwd:
  "entry_t e = PdbPwdEntry \<Longrightarrow>
   validate_struct e =
     (if contains e b_n \<and> contains e b_u \<and> contains e b_p \<and> contains e b_r then Inr e
      else Inl (StructureError (entry_id e)))"
  by (simp add: validate_struct_def all_fields_def contains_def)

theorem validate_struct_pwd_witness:
  "validate_struct (pwd0\<lparr>fields_d := [(b_n, []), (b_u, []), (b_p, []), (b_r, []), ([0x78], [1])]\<rparr>)
     = Inr (pwd0\<lparr>fields_d := [(b_n, []), (b_u, []), (b_p, []), (b_r, []), ([0x78], [1])]\<rparr>)
   \<and> validate_struct (pwd0\<lparr>fields_d := [(b_n, [1]), (b_u, [2]), (b_r, [3])]\<rparr>)
     = Inl (StructureError 7)"
  using validate_struct_pwd [of "pwd0\<lparr>fields_d := [(b_n, []), (b_u, []), (b_p, []), (b_r, []), ([0x78], [1])]\<rparr>"]
    validate_struct_pwd [of "pwd0\<lparr>fields_d := [(b_n, [1]), (b_u, [2]), (b_r, [3])]\<rparr>"]
  by (simp add: pwd0_def contains_def)

section \<open>Gathering an empty blob\<close>

text \<open>
  C8. When the blob of the decrypted header is empty, \<open>gather\<close> returns normally and
  leaves the entry list as it was, so an empty collection stays empty. The blob looked at
  is the one of the header that \<open>decrypt\<close> returns: the call of \<open>decrypt\<close> comes first.
\<close>

theorem gather_empty_blob:
  "decrypt c (chead self) = Inr hdr \<Longrightarrow> entries hdr = [] \<Longrightarrow>
   gather c t nid self = (None, nid, self\<lparr>chead := hdr\<rparr>)
   \<and> ents (snd (snd (gather c t nid self))) = ents self"
  by (simp add: gather_def)

theorem gather_empty_blob_witness:
  "gather (toy\<lparr>decrypt := (\<lambda>h. Inr (h\<lparr>entries := []\<rparr>))\<rparr>) PdbPwdEntry 0
     \<lparr>ents = [], chead = hdr0\<lparr>entries := [1, 2, 3]\<rparr>\<rparr>
   = (None, 0, \<lparr>ents = [], chead = hdr0\<rparr>)"
  using gather_empty_blob [where c = "toy\<lparr>decrypt := (\<lambda>h. Inr (h\<lparr>entries := []\<rparr>))\<rparr>"
      and self = "\<lparr>ents = [], chead = hdr0\<lparr>entries := [1, 2, 3]\<rparr>\<rparr>" and hdr = hdr0
      and t = PdbPwdEntry and nid = 0]
  by (simp add: hdr0_def)

section \<open>Decoding a field area\<close>

lemma le_bytes_4:
  "le_bytes LL n = [word_of_nat (n mod 256), word_of_nat (n div 256 mod 256),
     word_of_nat (n div 256 div 256 mod 256), word_of_nat (n div 256 div 256 div 256 mod 256)]"
proof -
  have l: "LL = Suc (Suc (Suc (Suc 0)))" by (simp add: LL_def)
  show ?thesis unfolding l le_bytes.simps by (rule refl)
qed

lemma decode_fields_Nil: "decode_fields [] = Inl FormatError"
  by (subst decode_fields.simps) (simp add: sunpack_L_def LL_def)

lemma decode_fields_sentinel: "decode_fields (0 # rest) = Inr ([], rest)"
  by (subst decode_fields.simps) (simp add: BL_def)

lemma decode_fields_prefix:
  "wire_fields recs \<Longrightarrow> encode_fields recs = Inr pre \<Longrightarrow>
   decode_fields (pre @ sfx) =
     (case decode_fields sfx of
        Inl err \<Rightarrow> Inl err
      | Inr (recs', rest) \<Rightarrow> Inr (recs @ recs', rest))"
proof (induction recs arbitrary: pre)
  case Nil
  then show ?case by (simp split: sum.splits)
next
  case (Cons r recs)
  obtain name v where r: "r = (name, v)" by (cases r)
  from Cons.prems r obtain l bs where
    l: "pack_L (length v) = Inr l" and bs: "encode_fields recs = Inr bs" and
    pre: "pre = name @ l @ v @ bs"
    by (auto split: sum.splits)
  from Cons.prems r have nm: "length name = BL" "name \<noteq> [0]" and wf: "wire_fields recs"
    by (simp_all add: wire_fields_def)
  note ih = Cons.IH [OF wf bs]
  have "sunpack_L (l @ v @ bs @ sfx) = Inr (length v, v @ bs @ sfx)"
    using l by (rule sunpack_pack)
  with nm ih show ?case
    by (subst decode_fields.simps) (simp add: pre r split: sum.splits)
qed

lemma decode_fields_truncated_value:
  assumes "length name = BL" "name \<noteq> [0]" "length lb = LL" "length v < le_nat lb"
  shows "decode_fields (name @ lb @ v) = Inl FormatError"
proof -
  have "sunpack_L (lb @ v) = Inr (le_nat lb, v)"
    using assms(3) by (simp add: sunpack_L_def)
  with assms show ?thesis
    by (subst decode_fields.simps) (simp add: decode_fields_Nil)
qed

lemma sentinel_iff_decoded:
  "(\<exists>recs pre rest. wire_fields recs \<and> encode_fields recs = Inr pre
       \<and> b = pre @ replicate BL 0 @ rest)
   \<longleftrightarrow> (\<exists>recs rest. decode_fields b = Inr (recs, rest))"
proof
  assume "\<exists>recs pre rest. wire_fields recs \<and> encode_fields recs = Inr pre
       \<and> b = pre @ replicate BL 0 @ rest"
  then obtain recs pre rest where "wire_fields recs" "encode_fields recs = Inr pre"
    "b = pre @ [0] @ rest"
    by (auto simp: BL_def)
  then have "decode_fields b = Inr (recs, rest)"
    using decode_fields_encoded by blast
  then show "\<exists>recs rest. decode_fields b = Inr (recs, rest)" by blast
next
  assume "\<exists>recs rest. decode_fields b = Inr (recs, rest)"
  then obtain recs rest where "decode_fields b = Inr (recs, rest)" by blast
  from decode_fields_shape [OF this]
  show "\<exists>recs pre rest. wire_fields recs \<and> encode_fields recs = Inr pre
       \<and> b = pre @ replicate BL 0 @ rest"
    by (auto simp: BL_def)
qed

lemma decode_fields_total:
  "decode_fields b = Inl FormatError \<or> (\<exists>recs rest. decode_fields b = Inr (recs, rest))"
proof (cases "decode_fields b")
  case (Inl err)
  then show ?thesis using decode_fields_error by blast
next
  case (Inr p)
  then show ?thesis by (cases p) simp
qed

lemma loops_fail_with_decode:
  "decode_fields b = Inl err \<Longrightarrow>
   gather_fields b e = Inl err \<and> from_entry c e b = Inl err"
  by (simp add: gather_fields_decode from_entry_def from_entry_loop_decode)


text \<open>
  C2. A field loop returns normally exactly when the buffer is a sequence of field records
  (an identifier of \<open>BL\<close> bytes other than the sentinel, the length in \<open>L\<close> bytes, that
  many value bytes) followed by the all-zero sentinel of width \<open>BL\<close>. The stream is then
  left just after the sentinel, and the entry has received one store per record, in wire
  order, and none for the sentinel. This holds for the inline loop of \<open>gather\<close>, which
  stores with \<open>set_field_raw\<close>, and for the loop of \<open>from_entry\<close>, which stores with
  \<open>set_field\<close>.
\<close>

theorem field_loop_stops_at_sentinel:
  "(gather_fields b e = Inr (e', rest) \<longleftrightarrow>
      (\<exists>recs pre. wire_fields recs \<and> encode_fields recs = Inr pre
         \<and> b = pre @ replicate BL 0 @ rest
         \<and> e' = foldl (\<lambda>e (name, v). set_field_raw e name v) e recs))
   \<and> (from_entry_loop c b e = Inr (e', rest) \<longleftrightarrow>
      (\<exists>recs pre. wire_fields recs \<and> encode_fields recs = Inr pre
         \<and> b = pre @ replicate BL 0 @ rest
         \<and> e' = foldl (\<lambda>e (name, v). set_field c e name v) e recs))"
proof -
  have s: "replicate BL 0 = [0::byte]" by (simp add: BL_def)
  have fwd: "\<exists>pre. wire_fields recs \<and> encode_fields recs = Inr pre \<and> b = pre @ [0] @ rest"
    if "decode_fields b = Inr (recs, rest)" for recs
    using decode_fields_shape [OF that] by blast
  have bwd: "decode_fields b = Inr (recs, rest)"
    if "wire_fields recs" "encode_fields recs = Inr pre" "b = pre @ [0] @ rest" for recs pre
    using decode_fields_encoded [OF that(1,2)] that(3) by simp
  have g: "gather_fields b e = Inr (e', rest) \<longleftrightarrow>
      (\<exists>recs. decode_fields b = Inr (recs, rest)
         \<and> e' = foldl (\<lambda>e (name, v). set_field_raw e name v) e recs)"
    by (auto simp: gather_fields_decode split: sum.splits)
  have f: "from_entry_loop c b e = Inr (e', rest) \<longleftrightarrow>
      (\<exists>recs. decode_fields b = Inr (recs, rest)
         \<and> e' = foldl (\<lambda>e (name, v). set_field c e name v) e recs)"
    by (auto simp: from_entry_loop_decode split: sum.splits)
  show ?thesis
    unfolding s g f using fwd bwd by blast
qed

theorem field_loop_stops_at_sentinel_witness:
  "gather_fields [0x61, 1, 0, 0, 0, 0x78, 0, 0x99] raw0
     = Inr (raw0\<lparr>fields_d := [([0x61], [0x78])]\<rparr>, [0x99])
   \<and> from_entry_loop toy [0x75, 1, 0, 0, 0, 0x78, 0, 0x99] pwd0
     = Inr (pwd0\<lparr>fields_d := [(b_u, [0xFF, 0x78])]\<rparr>, [0x99])"
proof -
  have 1: "\<exists>recs pre. wire_fields recs \<and> encode_fields recs = Inr pre
         \<and> [0x61, 1, 0, 0, 0, 0x78, 0, 0x99] = pre @ replicate BL 0 @ [0x99]
         \<and> raw0\<lparr>fields_d := [([0x61], [0x78])]\<rparr>
             = foldl (\<lambda>e (name, v). set_field_raw e name v) raw0 recs"
    by (rule exI [of _ "[([0x61], [0x78])]"], rule exI [of _ "[0x61, 1, 0, 0, 0, 0x78]"])
       (simp add: wire_fields_def BL_def pack_L_def le_bytes_4 set_field_raw_def raw0_def,
        simp add: LL_def)
  have 2: "\<exists>recs pre. wire_fields recs \<and> encode_fields recs = Inr pre
         \<and> [0x75, 1, 0, 0, 0, 0x78, 0, 0x99] = pre @ replicate BL 0 @ [0x99]
         \<and> pwd0\<lparr>fields_d := [(b_u, [0xFF, 0x78])]\<rparr>
             = foldl (\<lambda>e (name, v). set_field toy e name v) pwd0 recs"
    by (rule exI [of _ "[(b_u, [0x78])]"], rule exI [of _ "[0x75, 1, 0, 0, 0, 0x78]"])
       (simp add: wire_fields_def BL_def pack_L_def le_bytes_4 set_field_def set_crypt_def
          encrypted_fields_def set_field_raw_def pwd0_def toy_def,
        simp add: LL_def)
  have "gather_fields [0x61, 1, 0, 0, 0, 0x78, 0, 0x99] raw0
     = Inr (raw0\<lparr>fields_d := [([0x61], [0x78])]\<rparr>, [0x99])"
    by (rule iffD2 [OF conjunct1 [OF field_loop_stops_at_sentinel]]) (rule 1)
  moreover have "from_entry_loop toy [0x75, 1, 0, 0, 0, 0x78, 0, 0x99] pwd0
     = Inr (pwd0\<lparr>fields_d := [(b_u, [0xFF, 0x78])]\<rparr>, [0x99])"
    by (rule iffD2 [OF conjunct2 [OF field_loop_stops_at_sentinel]]) (rule 2)
  ultimately show ?thesis by (rule conjI)
qed

text \<open>
  C1. Malformed entry bytes fail with \<open>FormatError\<close>, in \<open>from_entry\<close> and in the inline
  loop of \<open>gather\<close>: a buffer in which no sentinel ends a sequence of field records; in
  particular a buffer that, after any number of field records, declares a length greater
  than the number of bytes left. In \<open>gather\<close>, a read of the next tag that returns at
  least one byte and fewer than \<open>ds()\<close> bytes fails with \<open>FormatError\<close> too, and the
  list of entries is left as it was. The error comes from \<open>s.sunpack\<close> as modelled above.
\<close>

theorem malformed_fields_FormatError:
  "(\<not> (\<exists>recs pre rest. wire_fields recs \<and> encode_fields recs = Inr pre
           \<and> b = pre @ replicate BL 0 @ rest)
      \<longrightarrow> gather_fields b e = Inl FormatError \<and> from_entry c e b = Inl FormatError)
   \<and> (wire_fields recs \<and> encode_fields recs = Inr pre \<and> length name = BL
        \<and> name \<noteq> replicate BL 0 \<and> length lb = LL \<and> length v < le_nat lb
      \<longrightarrow> gather_fields (pre @ name @ lb @ v) e = Inl FormatError
          \<and> from_entry c e (pre @ name @ lb @ v) = Inl FormatError)
   \<and> (0 < length h \<and> length h < ds c hdr
      \<longrightarrow> gather_loop c t hdr h nid es = (Some FormatError, nid + 1, es))"
proof (intro conjI impI)
  assume "\<not> (\<exists>recs pre rest. wire_fields recs \<and> encode_fields recs = Inr pre
           \<and> b = pre @ replicate BL 0 @ rest)"
  then have "\<not> (\<exists>recs rest. decode_fields b = Inr (recs, rest))"
    unfolding sentinel_iff_decoded .
  then have "decode_fields b = Inl FormatError"
    using decode_fields_total [of b] by blast
  then show "gather_fields b e = Inl FormatError" "from_entry c e b = Inl FormatError"
    using loops_fail_with_decode by blast+
next
  assume a: "wire_fields recs \<and> encode_fields recs = Inr pre \<and> length name = BL
        \<and> name \<noteq> replicate BL 0 \<and> length lb = LL \<and> length v < le_nat lb"
  then have "name \<noteq> [0]" by (simp add: BL_def)
  with a have "decode_fields (name @ lb @ v) = Inl FormatError"
    by (simp add: decode_fields_truncated_value)
  with a have "decode_fields (pre @ name @ lb @ v) = Inl FormatError"
    using decode_fields_prefix [of recs pre "name @ lb @ v"] by simp
  then show "gather_fields (pre @ name @ lb @ v) e = Inl FormatError"
    "from_entry c e (pre @ name @ lb @ v) = Inl FormatError"
    using loops_fail_with_decode by blast+
next
  assume a: "0 < length h \<and> length h < ds c hdr"
  then have "take (ds c hdr) h \<noteq> []" "drop (ds c hdr) h = []" by auto
  then show "gather_loop c t hdr h nid es = (Some FormatError, nid + 1, es)"
    by (subst gather_loop.simps)
       (simp add: new_entry_def gather_fields_decode decode_fields_Nil)
qed

theorem malformed_fields_FormatError_witness:
  "gather_fields [0x61, 1, 0, 0, 0, 0x78] raw0 = Inl FormatError
   \<and> from_entry (toy\<lparr>ds := (\<lambda>h. 2)\<rparr>) raw0 [0x61, 1, 0, 0, 0, 0x78] = Inl FormatError
   \<and> gather_fields [0x61, 5, 0, 0, 0, 0x78, 0] raw0 = Inl FormatError
   \<and> from_entry (toy\<lparr>ds := (\<lambda>h. 2)\<rparr>) raw0 [0x61, 5, 0, 0, 0, 0x78, 0] = Inl FormatError
   \<and> gather_loop (toy\<lparr>ds := (\<lambda>h. 2)\<rparr>) PdbPwdEntry hdr0 [7] 0 []
       = (Some FormatError, 1, [])"
proof -
  have "decode_fields [0x61, 1, 0, 0, 0, 0x78] = Inl FormatError"
    by (simp add: decode_fields.simps BL_def sunpack_L_def LL_def)
  then have h: "\<not> (\<exists>recs pre rest. wire_fields recs \<and> encode_fields recs = Inr pre
           \<and> [0x61, 1, 0, 0, 0, 0x78] = pre @ replicate BL 0 @ rest)"
    unfolding sentinel_iff_decoded by simp
  show ?thesis
    using h malformed_fields_FormatError [where b = "[0x61, 1, 0, 0, 0, 0x78]" and e = raw0
        and c = "toy\<lparr>ds := (\<lambda>h. 2)\<rparr>" and recs = "[]" and pre = "[]" and name = "[0x61]"
        and lb = "[5, 0, 0, 0]" and v = "[0x78, 0]" and h = "[7]" and hdr = hdr0
        and t = PdbPwdEntry and nid = 0 and es = "[]"]
    by (simp add: BL_def LL_def wire_fields_def)
qed

section \<open>Encrypted fields of a Password entry\<close>

lemma set_crypt_field_encrypt:
  "set_crypt c e name v = set_field_raw e name (field_encrypt c (head e) v)"
  by (simp add: set_crypt_def field_encrypt_def)




lemma entry_t_set_field_raw: "entry_t (set_field_raw e name v) = entry_t e"
  by (simp add: set_field_raw_def)



section \<open>Round trip of a Raw entry\<close>

lemma update_fresh: "name \<notin> fst ` set xs \<Longrightarrow> AList.update name v xs = xs @ [(name, v)]"
  by (induction xs) auto

lemma foldl_update_distinct:
  "distinct (map fst (xs @ fs)) \<Longrightarrow>
   foldl (\<lambda>d (name, v). AList.update name v d) xs fs = xs @ fs"
proof (induction fs arbitrary: xs)
  case Nil
  then show ?case by simp
next
  case (Cons f fs)
  obtain name v where f: "f = (name, v)" by (cases f)
  from Cons.prems f have fresh: "name \<notin> fst ` set xs" by auto
  from Cons.prems f have "distinct (map fst ((xs @ [(name, v)]) @ fs))" by simp
  from Cons.IH [OF this] show ?case by (simp add: f update_fresh [OF fresh])
qed

lemma foldl_set_field_raw:
  "foldl (\<lambda>e (name, v). set_field_raw e name v) e fs
     = e\<lparr>fields_d := foldl (\<lambda>d (name, v). AList.update name v d) (fields_d e) fs\<rparr>"
proof (induction fs arbitrary: e)
  case Nil
  then show ?case by simp
next
  case (Cons f fs)
  obtain name v where f: "f = (name, v)" by (cases f)
  have "foldl (\<lambda>e (name, v). set_field_raw e name v) (set_field_raw e name v) fs
      = (set_field_raw e name v)\<lparr>fields_d :=
          foldl (\<lambda>d (name, v). AList.update name v d) (fields_d (set_field_raw e name v)) fs\<rparr>"
    by (rule Cons.IH)
  also have "\<dots> = e\<lparr>fields_d :=
          foldl (\<lambda>d (name, v). AList.update name v d) (AList.update name v (fields_d e)) fs\<rparr>"
    by (simp add: set_field_raw_def)
  finally show ?case by (simp add: f)
qed

lemma foldl_set_field_raw_entry:
  "entry_t e = PdbRawEntry \<Longrightarrow>
   foldl (\<lambda>e (name, v). set_field c e name v) e fs
     = foldl (\<lambda>e (name, v). set_field_raw e name v) e fs"
proof (induction fs arbitrary: e)
  case Nil
  then show ?case by simp
next
  case (Cons f fs)
  obtain name v where f: "f = (name, v)" by (cases f)
  have "entry_t (set_field_raw e name v) = PdbRawEntry"
    using Cons.prems by (simp add: entry_t_set_field_raw)
  from Cons.IH [OF this] show ?case
    using Cons.prems by (simp add: f set_field_def)
qed

lemma encode_fields_bounded:
  "\<forall>(name, v) \<in> set fs. length v < 256 ^ LL \<Longrightarrow> \<exists>bs. encode_fields fs = Inr bs"
  by (induction fs) (auto simp: pack_L_def)

text \<open>
  C6, as amended. For a Raw entry whose field names are \<open>BL\<close> bytes wide and other than
  the sentinel, with values of any length that fits the length prefix: the field area
  \<open>entry\<close> followed by the sentinel, parsed by \<open>from_entry\<close> into a fresh Raw entry, gives
  the same fields in the same order. (That the keys are distinct is what a \<open>dict\<close> is.)
\<close>

theorem raw_round_trip:
  "entry_t e0 = PdbRawEntry \<Longrightarrow> fields_d e0 = [] \<Longrightarrow>
   distinct (map fst (fields_d e)) \<Longrightarrow> wire_fields (fields_d e) \<Longrightarrow>
   \<forall>(name, v) \<in> set (fields_d e). length v < 256 ^ LL \<Longrightarrow>
   \<exists>bs. entry e = Inr bs
     \<and> from_entry c e0 (bs @ replicate BL 0) = Inr (e0\<lparr>fields_d := fields_d e\<rparr>)"
proof -
  assume raw: "entry_t e0 = PdbRawEntry" and empty: "fields_d e0 = []"
    and dist: "distinct (map fst (fields_d e))" and wf: "wire_fields (fields_d e)"
    and bound: "\<forall>(name, v) \<in> set (fields_d e). length v < 256 ^ LL"
  from encode_fields_bounded [OF bound] obtain bs where bs: "encode_fields (fields_d e) = Inr bs"
    by blast
  have "decode_fields (bs @ [0] @ []) = Inr (fields_d e, [])"
    using wf bs by (rule decode_fields_encoded)
  then have "from_entry c e0 (bs @ replicate BL 0)
      = Inr (foldl (\<lambda>e (name, v). set_field c e name v) e0 (fields_d e))"
    by (simp add: from_entry_def from_entry_loop_decode BL_def)
  also have "foldl (\<lambda>e (name, v). set_field c e name v) e0 (fields_d e)
      = e0\<lparr>fields_d := fields_d e\<rparr>"
    using dist by (simp add: foldl_set_field_raw_entry [OF raw] foldl_set_field_raw empty
        foldl_update_distinct)
  finally show ?thesis using bs by (simp add: entry_def)
qed

theorem raw_round_trip_witness:
  "entry (raw0\<lparr>fields_d := [([0x61], []), ([0x62], [1, 2])]\<rparr>)
     = Inr [0x61, 0, 0, 0, 0, 0x62, 2, 0, 0, 0, 1, 2]
   \<and> from_entry toy raw0 [0x61, 0, 0, 0, 0, 0x62, 2, 0, 0, 0, 1, 2, 0]
     = Inr (raw0\<lparr>fields_d := [([0x61], []), ([0x62], [1, 2])]\<rparr>)"
proof -
  have enc: "entry (raw0\<lparr>fields_d := [([0x61], []), ([0x62], [1, 2])]\<rparr>)
     = Inr [0x61, 0, 0, 0, 0, 0x62, 2, 0, 0, 0, 1, 2]"
    by (simp add: entry_def pack_L_def le_bytes_4) (simp add: LL_def)
  have "\<exists>bs. entry (raw0\<lparr>fields_d := [([0x61], []), ([0x62], [1, 2])]\<rparr>) = Inr bs
     \<and> from_entry toy raw0 (bs @ replicate BL 0)
        = Inr (raw0\<lparr>fields_d := fields_d (raw0\<lparr>fields_d := [([0x61], []), ([0x62], [1, 2])]\<rparr>)\<rparr>)"
    using raw_round_trip [of raw0 "raw0\<lparr>fields_d := [([0x61], []), ([0x62], [1, 2])]\<rparr>" toy]
    by (simp add: raw0_def wire_fields_def BL_def LL_def)
  with enc show ?thesis by (simp add: BL_def)
qed

text \<open>
  C6 as stated fails for a mapping that uses the sentinel as a field name, which a Raw
  entry accepts: the field area of \<open>{b"\0": b""}\<close> starts with the sentinel, and the
  decoder stops there with no field.
\<close>

theorem raw_round_trip_counterexample:
  "entry (raw0\<lparr>fields_d := [([0], [])]\<rparr>) = Inr [0, 0, 0, 0, 0]
   \<and> from_entry toy raw0 ([0, 0, 0, 0, 0] @ [0]) = Inr raw0
   \<and> fields_d raw0 \<noteq> fields_d (raw0\<lparr>fields_d := [([0], [])]\<rparr>)"
proof -
  have "entry (raw0\<lparr>fields_d := [([0], [])]\<rparr>) = Inr [0, 0, 0, 0, 0]"
    by (simp add: entry_def pack_L_def le_bytes_4)
  moreover have "from_entry toy raw0 ([0, 0, 0, 0, 0] @ [0]) = Inr raw0"
    by (simp add: from_entry_def from_entry_loop.simps BL_def)
  moreover have "fields_d raw0 \<noteq> fields_d (raw0\<lparr>fields_d := [([0], [])]\<rparr>)"
    by (simp add: raw0_def)
  ultimately show ?thesis by simp
qed

section \<open>The two parse paths\<close>

lemma set_field_pwd:
  "entry_t e = PdbPwdEntry \<Longrightarrow>
   set_field c e name v = set_field_raw e name (pwd_store_value c (head e) name v)"
  by (simp add: set_field_def pwd_store_value_def set_crypt_field_encrypt)

lemma update_map_value:
  "AList.update name (h name v) (map (\<lambda>(k, x). (k, h k x)) xs)
     = map (\<lambda>(k, x). (k, h k x)) (AList.update name v xs)"
  by (induction xs) auto

lemma foldl_set_field_pwd:
  "entry_t e = PdbPwdEntry \<Longrightarrow>
   foldl (\<lambda>e (name, v). set_field c e name v) e recs
     = e\<lparr>fields_d := foldl (\<lambda>d (name, v). AList.update name (pwd_store_value c (head e) name v) d)
          (fields_d e) recs\<rparr>"
proof (induction recs arbitrary: e)
  case Nil
  then show ?case by simp
next
  case (Cons r recs)
  obtain name v where r: "r = (name, v)" by (cases r)
  let ?e1 = "set_field_raw e name (pwd_store_value c (head e) name v)"
  have t: "entry_t ?e1 = PdbPwdEntry"
    using Cons.prems by (simp add: entry_t_set_field_raw)
  have "foldl (\<lambda>e (name, v). set_field c e name v) ?e1 recs
      = ?e1\<lparr>fields_d := foldl (\<lambda>d (name, v). AList.update name (pwd_store_value c (head ?e1) name v) d)
          (fields_d ?e1) recs\<rparr>"
    by (rule Cons.IH [OF t])
  also have "\<dots> = e\<lparr>fields_d :=
        foldl (\<lambda>d (name, v). AList.update name (pwd_store_value c (head e) name v) d)
          (AList.update name (pwd_store_value c (head e) name v) (fields_d e)) recs\<rparr>"
    by (simp add: set_field_raw_def)
  finally show ?case
    using Cons.prems by (simp add: r set_field_pwd)
qed

lemma foldl_update_map_value:
  "foldl (\<lambda>d (name, v). AList.update name (h name v) d) (map (\<lambda>(k, x). (k, h k x)) xs) recs
     = map (\<lambda>(k, x). (k, h k x)) (foldl (\<lambda>d (name, v). AList.update name v d) xs recs)"
proof (induction recs arbitrary: xs)
  case Nil
  then show ?case by simp
next
  case (Cons r recs)
  obtain name v where r: "r = (name, v)" by (cases r)
  show ?case
    by (simp add: r update_map_value Cons.IH)
qed

lemma distinct_foldl_update:
  "distinct (map fst xs) \<Longrightarrow>
   distinct (map fst (foldl (\<lambda>d (name, v). AList.update name v d) xs recs))"
proof (induction recs arbitrary: xs)
  case Nil
  then show ?case by simp
next
  case (Cons r recs)
  obtain name v where r: "r = (name, v)" by (cases r)
  have "distinct (map fst (AList.update name v xs))"
    using Cons.prems by (simp add: distinct_update)
  from Cons.IH [OF this] show ?case by (simp add: r)
qed

lemma map_of_map_value:
  "map_of (map (\<lambda>(k, x). (k, h k x)) xs) name = map_option (h name) (map_of xs name)"
  by (induction xs) auto

lemma map_value_changes_iff:
  "map (\<lambda>(k, x). (k, h k x)) xs \<noteq> xs \<longleftrightarrow> (\<exists>k x. (k, x) \<in> set xs \<and> h k x \<noteq> x)"
  by (induction xs) auto

text \<open>
  C9. For a fresh Password entry and a buffer the inline loop of \<open>gather\<close> decodes:
  \<open>from_entry\<close> decodes it too, and its store is the store of \<open>gather\<close> with every value
  passed through \<open>set_field\<close>. So under \<open>u\<close> and \<open>p\<close> it holds the encryption of the
  wire bytes where \<open>gather\<close> holds the wire bytes, under every other name the two agree,
  and the two stores differ exactly when the buffer carries a \<open>u\<close> or \<open>p\<close> whose wire
  bytes the cipher does not return unchanged.
\<close>

theorem from_entry_encrypts_wire_bytes:
  "entry_t e = PdbPwdEntry \<Longrightarrow> fields_d e = [] \<Longrightarrow> gather_fields b e = Inr (eg, rest) \<Longrightarrow>
   (\<exists>ef. from_entry c e b = Inr ef
      \<and> ef = eg\<lparr>fields_d := map (\<lambda>(name, w). (name, pwd_store_value c (head e) name w)) (fields_d eg)\<rparr>
      \<and> (\<forall>name \<in> set encrypted_fields. \<forall>w. get_field_raw eg name = Inr w
            \<longrightarrow> get_field_raw ef name = Inr (field_encrypt c (head e) w))
      \<and> (\<forall>name. name \<notin> set encrypted_fields \<longrightarrow> get_field_raw ef name = get_field_raw eg name)
      \<and> (fields_d ef \<noteq> fields_d eg \<longleftrightarrow>
            (\<exists>name \<in> set encrypted_fields. \<exists>w. get_field_raw eg name = Inr w
               \<and> field_encrypt c (head e) w \<noteq> w)))"
proof -
  assume pwd: "entry_t e = PdbPwdEntry" and empty: "fields_d e = []"
    and g: "gather_fields b e = Inr (eg, rest)"
  let ?h = "pwd_store_value c (head e)"
  let ?g = "\<lambda>(name, w). (name, ?h name w)"
  from g obtain recs where d: "decode_fields b = Inr (recs, rest)"
    and eg: "eg = foldl (\<lambda>e (name, v). set_field_raw e name v) e recs"
    by (auto simp: gather_fields_decode split: sum.splits)
  let ?xs = "foldl (\<lambda>d (name, v). AList.update name v d) [] recs"
  have eg': "eg = e\<lparr>fields_d := ?xs\<rparr>"
    by (simp add: eg foldl_set_field_raw empty)
  have dist: "distinct (map fst ?xs)"
    by (rule distinct_foldl_update) simp
  have "from_entry c e b = Inr (foldl (\<lambda>e (name, v). set_field c e name v) e recs)"
    by (simp add: from_entry_def from_entry_loop_decode d)
  also have "foldl (\<lambda>e (name, v). set_field c e name v) e recs
      = e\<lparr>fields_d := foldl (\<lambda>d (name, v). AList.update name (?h name v) d) (map ?g []) recs\<rparr>"
    by (simp add: foldl_set_field_pwd [OF pwd] empty)
  also have "\<dots> = e\<lparr>fields_d := map ?g ?xs\<rparr>"
    by (simp only: foldl_update_map_value)
  finally have f: "from_entry c e b = Inr (eg\<lparr>fields_d := map ?g (fields_d eg)\<rparr>)"
    by (simp add: eg')
  let ?ef = "eg\<lparr>fields_d := map ?g (fields_d eg)\<rparr>"
  have look: "map_of (map ?g ?xs) name = map_option (?h name) (map_of ?xs name)" for name
    by (rule map_of_map_value)
  have raw_f: "get_field_raw ?ef name =
      (case get_field_raw eg name of Inl err \<Rightarrow> Inl err | Inr w \<Rightarrow> Inr (?h name w))" for name
    by (simp add: get_field_raw_def eg' look split: option.splits)
  have enc: "\<forall>name \<in> set encrypted_fields. \<forall>w. get_field_raw eg name = Inr w
            \<longrightarrow> get_field_raw ?ef name = Inr (field_encrypt c (head e) w)"
    unfolding raw_f by (simp add: pwd_store_value_def)
  have clear: "\<forall>name. name \<notin> set encrypted_fields
      \<longrightarrow> get_field_raw ?ef name = get_field_raw eg name"
    unfolding raw_f by (simp add: pwd_store_value_def split: sum.splits)
  have mem: "(name, w) \<in> set ?xs \<longleftrightarrow> get_field_raw eg name = Inr w" for name w
  proof -
    have "(name, w) \<in> set ?xs \<longleftrightarrow> map_of ?xs name = Some w"
      using dist by simp
    also have "\<dots> \<longleftrightarrow> get_field_raw eg name = Inr w"
      by (simp add: get_field_raw_def eg' split: option.splits)
    finally show ?thesis .
  qed
  have "fields_d ?ef \<noteq> fields_d eg \<longleftrightarrow> (\<exists>name w. (name, w) \<in> set ?xs \<and> ?h name w \<noteq> w)"
    by (simp add: eg' map_value_changes_iff)
  also have "\<dots> \<longleftrightarrow> (\<exists>name w. (name, w) \<in> set ?xs \<and> name \<in> set encrypted_fields
      \<and> field_encrypt c (head e) w \<noteq> w)"
    by (auto simp: pwd_store_value_def split: if_splits)
  also have "\<dots> \<longleftrightarrow> (\<exists>name \<in> set encrypted_fields. \<exists>w. get_field_raw eg name = Inr w
               \<and> field_encrypt c (head e) w \<noteq> w)"
    unfolding mem by blast
  finally have diff: "fields_d ?ef \<noteq> fields_d eg \<longleftrightarrow>
      (\<exists>name \<in> set encrypted_fields. \<exists>w. get_field_raw eg name = Inr w
               \<and> field_encrypt c (head e) w \<noteq> w)" .
  from f enc clear diff show ?thesis by blast
qed

theorem from_entry_encrypts_wire_bytes_witness:
  "gather_fields [0x75, 1, 0, 0, 0, 0x78, 0x6E, 1, 0, 0, 0, 0x79, 0] pwd0
     = Inr (pwd0\<lparr>fields_d := [(b_u, [0x78]), (b_n, [0x79])]\<rparr>, [])
   \<and> from_entry toy pwd0 [0x75, 1, 0, 0, 0, 0x78, 0x6E, 1, 0, 0, 0, 0x79, 0]
     = Inr (pwd0\<lparr>fields_d := [(b_u, [0xFF, 0x78]), (b_n, [0x79])]\<rparr>)"
proof -
  have t: "entry_t pwd0 = PdbPwdEntry" and f: "fields_d pwd0 = []"
    by (simp_all add: pwd0_def)
  have g: "gather_fields [0x75, 1, 0, 0, 0, 0x78, 0x6E, 1, 0, 0, 0, 0x79, 0] pwd0
     = Inr (pwd0\<lparr>fields_d := [(b_u, [0x78]), (b_n, [0x79])]\<rparr>, [])"
    by (simp add: gather_fields.simps BL_def sunpack_L_def LL_def set_field_raw_def pwd0_def)
  from from_entry_encrypts_wire_bytes [OF t f g, of toy]
  have "from_entry toy pwd0 [0x75, 1, 0, 0, 0, 0x78, 0x6E, 1, 0, 0, 0, 0x79, 0]
     = Inr (pwd0\<lparr>fields_d := [(b_u, [0x78]), (b_n, [0x79])]\<rparr>
        \<lparr>fields_d := map (\<lambda>(name, w). (name, pwd_store_value toy (head pwd0) name w))
           (fields_d (pwd0\<lparr>fields_d := [(b_u, [0x78]), (b_n, [0x79])]\<rparr>))\<rparr>)"
    by blast
  then have "from_entry toy pwd0 [0x75, 1, 0, 0, 0, 0x78, 0x6E, 1, 0, 0, 0, 0x79, 0]
     = Inr (pwd0\<lparr>fields_d := [(b_u, [0xFF, 0x78]), (b_n, [0x79])]\<rparr>)"
    by (simp add: pwd_store_value_def encrypted_fields_def field_encrypt_def toy_def)
  with g show ?thesis by (rule conjI)
qed

section \<open>Admission into the collection\<close>

lemma revalidate_Inr: "revalidate c e = Inr e' \<Longrightarrow> e' = e"
  by (auto simp: revalidate_def split: sum.splits if_splits)

lemma validate_struct_Inr: "validate_struct e = Inr e' \<Longrightarrow> e' = e"
  by (auto simp: validate_struct_def split: variant.splits if_splits)

lemma gather_fields_keeps:
  "gather_fields b e = Inr (e', rest) \<Longrightarrow> entry_t e' = entry_t e \<and> head e' = head e"
proof (induction b e rule: gather_fields.induct)
  case (1 b e)
  then show ?case
    by (subst (asm) (2) gather_fields.simps)
       (auto simp: set_field_raw_def split: if_splits sum.splits)
qed

lemma gather_loop_appends:
  "gather_loop c t hdr b nid es = (r, nid', es') \<Longrightarrow>
   \<exists>xs. es' = es @ xs \<and> nid' = nid + length xs + raised r
     \<and> (\<forall>x \<in> set xs. revalidate c x = Inr x \<and> validate_struct x = Inr x
           \<and> entry_t x = t \<and> head x = hdr)"
proof (induction c t hdr b nid es rule: gather_loop.induct)
  case (1 c t hdr b nid es)
  show ?case
  proof (cases "take (ds c hdr) b \<noteq> []")
    case False
    with "1.prems" have "es' = es \<and> nid' = nid \<and> r = None"
      by (auto simp: gather_loop.simps [of c t hdr b nid es])
    then show ?thesis by (simp add: raised_def)
  next
    case True
    obtain e n1 where ne: "new_entry c t hdr (take (ds c hdr) b) [] nid = (e, n1)"
      by (cases "new_entry c t hdr (take (ds c hdr) b) [] nid")
    then have e: "entry_t e = t" "head e = hdr" and n1: "n1 = nid + 1"
      by (auto simp: new_entry_def)
    show ?thesis
    proof (cases "gather_fields (drop (ds c hdr) b) e")
      case (Inl err)
      with "1.prems" True ne have "es' = es \<and> nid' = n1 \<and> r = Some err"
        by (simp add: gather_loop.simps [of c t hdr b nid es])
      then show ?thesis by (simp add: raised_def n1)
    next
      case (Inr p)
      obtain e1 b1 where p: "p = (e1, b1)" by (cases p)
      note gf = Inr [unfolded p]
      from gather_fields_keeps [OF gf] e have e1: "entry_t e1 = t" "head e1 = hdr" by simp_all
      show ?thesis
      proof (cases "revalidate c e1")
        case (Inl err)
        with "1.prems" True ne gf have "es' = es \<and> nid' = n1 \<and> r = Some err"
          by (simp add: gather_loop.simps [of c t hdr b nid es])
        then show ?thesis by (simp add: raised_def n1)
      next
        case rv: (Inr e2)
        then have e2: "e2 = e1" by (rule revalidate_Inr)
        show ?thesis
        proof (cases "validate_struct e2")
          case (Inl err)
          with "1.prems" True ne gf rv have "es' = es \<and> nid' = n1 \<and> r = Some err"
            by (simp add: gather_loop.simps [of c t hdr b nid es])
          then show ?thesis by (simp add: raised_def n1)
        next
          case vs: (Inr e3)
          then have e3: "e3 = e2" by (rule validate_struct_Inr)
          from "1.prems" True ne gf rv vs
          have "gather_loop c t hdr b1 n1 (es @ [e3]) = (r, nid', es')"
            by (simp add: gather_loop.simps [of c t hdr b nid es])
          from "1.IH" [OF True ne [symmetric] gf refl rv vs this]
          obtain xs where xs: "es' = (es @ [e3]) @ xs"
            and cnt: "nid' = n1 + length xs + raised r"
            and ok: "\<forall>x \<in> set xs. revalidate c x = Inr x \<and> validate_struct x = Inr x
              \<and> entry_t x = t \<and> head x = hdr"
            by blast
          have "es' = es @ (e3 # xs)" using xs by simp
          moreover have "nid' = nid + length (e3 # xs) + raised r"
            using cnt n1 by simp
          moreover have "\<forall>x \<in> set (e3 # xs). revalidate c x = Inr x
              \<and> validate_struct x = Inr x \<and> entry_t x = t \<and> head x = hdr"
            using ok rv vs e1 e2 e3 by simp
          ultimately show ?thesis by blast
        qed
      qed
    qed
  qed
qed

lemma gather_appends:
  "gather c t nid self = (r, nid', self') \<Longrightarrow>
   \<exists>xs. ents self' = ents self @ xs
     \<and> (\<forall>x \<in> set xs. revalidate c x = Inr x \<and> validate_struct x = Inr x \<and> entry_t x = t)
     \<and> (\<forall>hdr. decrypt c (chead self) = Inr hdr \<longrightarrow> nid' = nid + length xs + raised r)"
proof (cases "decrypt c (chead self)")
  case (Inl err)
  assume "gather c t nid self = (r, nid', self')"
  with Inl have "self' = self" by (simp add: gather_def)
  with Inl show ?thesis by simp
next
  case (Inr hdr)
  assume g: "gather c t nid self = (r, nid', self')"
  show ?thesis
  proof (cases "entries hdr = []")
    case True
    with g Inr have "self' = self\<lparr>chead := hdr\<rparr>" "nid' = nid" "r = None"
      by (simp_all add: gather_def)
    then show ?thesis by (simp add: raised_def)
  next
    case False
    obtain r1 n1 es1 where l: "gather_loop c t hdr (entries hdr) nid (ents self) = (r1, n1, es1)"
      by (cases "gather_loop c t hdr (entries hdr) nid (ents self)")
    with g Inr False have "r = r1" "nid' = n1" "ents self' = es1"
      by (auto simp: gather_def)
    with gather_loop_appends [OF l] Inr show ?thesis by auto
  qed
qed

lemma add_entry_cases:
  "add_entry c self e =
     (case revalidate c e of
        Inl err \<Rightarrow> (Some err, self)
      | Inr e1 \<Rightarrow>
          (case validate_struct e of
             Inl err \<Rightarrow> (Some err, self)
           | Inr e2 \<Rightarrow> (None, self\<lparr>ents := ents self @ [e]\<rparr>)))"
  by (auto simp: add_entry_def split: sum.splits dest: revalidate_Inr validate_struct_Inr)

lemma gather_blob2:
  "gather toy PdbRawEntry 0 \<lparr>ents = [], chead = hdr0\<lparr>entries := blob2\<rparr>\<rparr>
     = (Some (DataIntegrityError 1 [9]), 2,
        \<lparr>ents = [admitted0], chead = hdr0\<lparr>entries := blob2\<rparr>\<rparr>)"
  by (simp add: gather_def gather_loop.simps gather_fields.simps new_entry_def revalidate_def
        hash_ok_def entry_def validate_struct_def BL_def toy_def hdr0_def blob2_def admitted0_def)

text \<open>
  C4. An entry enters the collection only after \<open>revalidate\<close> and then
  \<open>validate_struct\<close> have returned it: \<open>add_entry\<close> returns normally exactly when both
  gates pass, and then appends the entry; every entry \<open>gather\<close> appends has passed both.
  The integrity gate comes first: an entry that fails \<open>revalidate\<close> gives that error from
  \<open>add_entry\<close> and from \<open>gather\<close>, whatever its structure.
\<close>

theorem admitted_entries_pass_gates:
  "(add_entry c self e = (None, self') \<longleftrightarrow>
      revalidate c e = Inr e \<and> validate_struct e = Inr e
      \<and> self' = self\<lparr>ents := ents self @ [e]\<rparr>)
   \<and> (revalidate c e = Inl err \<longrightarrow> add_entry c self e = (Some err, self))
   \<and> (gather c t nid self = (r, nid', self') \<longrightarrow>
        (\<exists>xs. ents self' = ents self @ xs
           \<and> (\<forall>x \<in> set xs. revalidate c x = Inr x \<and> validate_struct x = Inr x)))
   \<and> (take (ds c hdr) b \<noteq> []
        \<and> gather_fields (drop (ds c hdr) b) (fst (new_entry c t hdr (take (ds c hdr) b) [] nid))
            = Inr (e1, b1)
        \<and> revalidate c e1 = Inl err
      \<longrightarrow> gather_loop c t hdr b nid es = (Some err, nid + 1, es))"
proof (intro conjI impI)
  show "add_entry c self e = (None, self') \<longleftrightarrow>
      revalidate c e = Inr e \<and> validate_struct e = Inr e
      \<and> self' = self\<lparr>ents := ents self @ [e]\<rparr>"
    by (auto simp: add_entry_cases split: sum.splits dest: revalidate_Inr validate_struct_Inr)
next
  assume "revalidate c e = Inl err"
  then show "add_entry c self e = (Some err, self)" by (simp add: add_entry_def)
next
  assume "gather c t nid self = (r, nid', self')"
  from gather_appends [OF this]
  show "\<exists>xs. ents self' = ents self @ xs
           \<and> (\<forall>x \<in> set xs. revalidate c x = Inr x \<and> validate_struct x = Inr x)"
    by blast
next
  assume a: "take (ds c hdr) b \<noteq> []
        \<and> gather_fields (drop (ds c hdr) b) (fst (new_entry c t hdr (take (ds c hdr) b) [] nid))
            = Inr (e1, b1)
        \<and> revalidate c e1 = Inl err"
  obtain e n1 where ne: "new_entry c t hdr (take (ds c hdr) b) [] nid = (e, n1)"
    by (cases "new_entry c t hdr (take (ds c hdr) b) [] nid")
  then have "n1 = nid + 1" by (auto simp: new_entry_def)
  with a ne show "gather_loop c t hdr b nid es = (Some err, nid + 1, es)"
    by (subst gather_loop.simps) simp
qed

theorem admitted_entries_pass_gates_witness:
  "add_entry toy \<lparr>ents = [], chead = hdr0\<rparr> (raw0\<lparr>ehash := [1]\<rparr>)
     = (None, \<lparr>ents = [raw0\<lparr>ehash := [1]\<rparr>], chead = hdr0\<rparr>)
   \<and> add_entry toy \<lparr>ents = [], chead = hdr0\<rparr> pwd0
     = (Some (DataIntegrityError 7 []), \<lparr>ents = [], chead = hdr0\<rparr>)
   \<and> revalidate toy admitted0 = Inr admitted0 \<and> validate_struct admitted0 = Inr admitted0
   \<and> gather_loop toy PdbPwdEntry hdr0 [9, 0] 0 [] = (Some (DataIntegrityError 0 [9]), 1, [])"
proof -
  have "revalidate toy (raw0\<lparr>ehash := [1]\<rparr>) = Inr (raw0\<lparr>ehash := [1]\<rparr>)
      \<and> validate_struct (raw0\<lparr>ehash := [1]\<rparr>) = Inr (raw0\<lparr>ehash := [1]\<rparr>)
      \<and> \<lparr>ents = [raw0\<lparr>ehash := [1]\<rparr>], chead = hdr0\<rparr>
          = \<lparr>ents = [], chead = hdr0\<rparr>\<lparr>ents := ents \<lparr>ents = [], chead = hdr0\<rparr> @ [raw0\<lparr>ehash := [1]\<rparr>]\<rparr>"
    by (simp add: revalidate_def hash_ok_def entry_def validate_struct_def raw0_def toy_def)
  then have 1: "add_entry toy \<lparr>ents = [], chead = hdr0\<rparr> (raw0\<lparr>ehash := [1]\<rparr>)
     = (None, \<lparr>ents = [raw0\<lparr>ehash := [1]\<rparr>], chead = hdr0\<rparr>)"
    by (rule iffD2 [OF conjunct1 [OF admitted_entries_pass_gates]])
  have "revalidate toy pwd0 = Inl (DataIntegrityError 7 [])"
    by (simp add: revalidate_def hash_ok_def entry_def pwd0_def toy_def)
  then have 2: "add_entry toy \<lparr>ents = [], chead = hdr0\<rparr> pwd0
     = (Some (DataIntegrityError 7 []), \<lparr>ents = [], chead = hdr0\<rparr>)"
    by (rule mp [OF conjunct1 [OF conjunct2 [OF admitted_entries_pass_gates]]])
  from mp [OF conjunct1 [OF conjunct2 [OF conjunct2 [OF admitted_entries_pass_gates]]], OF gather_blob2]
  have 3: "revalidate toy admitted0 = Inr admitted0 \<and> validate_struct admitted0 = Inr admitted0"
    by auto
  have "take (ds toy hdr0) [9, 0] \<noteq> []
      \<and> gather_fields (drop (ds toy hdr0) [9, 0])
          (fst (new_entry toy PdbPwdEntry hdr0 (take (ds toy hdr0) [9, 0]) [] 0))
          = Inr (\<lparr>entry_t = PdbPwdEntry, entry_id = 0, head = hdr0, ehash = [9], fields_d = []\<rparr>, [])
      \<and> revalidate toy \<lparr>entry_t = PdbPwdEntry, entry_id = 0, head = hdr0, ehash = [9], fields_d = []\<rparr>
          = Inl (DataIntegrityError 0 [9])"
    by (simp add: gather_fields.simps new_entry_def revalidate_def hash_ok_def entry_def
          BL_def toy_def)
  then have 4: "gather_loop toy PdbPwdEntry hdr0 [9, 0] 0 []
      = (Some (DataIntegrityError 0 [9]), 0 + 1, [])"
    by (rule mp [OF conjunct2 [OF conjunct2 [OF conjunct2 [OF admitted_entries_pass_gates]]]])
  from 1 2 3 4 show ?thesis by simp
qed

lemma gather_loop_end:
  "take (ds c hdr) b = [] \<Longrightarrow> gather_loop c t hdr b nid es = (None, nid, es)"
  by (subst gather_loop.simps) auto

lemma gather_loop_fail:
  "take (ds c hdr) b \<noteq> [] \<Longrightarrow> gather_one c t hdr b nid = Inl err \<Longrightarrow>
   gather_loop c t hdr b nid es = (Some err, nid + 1, es)"
  by (subst gather_loop.simps)
     (auto simp: gather_one_def new_entry_def split: sum.splits prod.splits)

lemma gather_loop_step:
  "take (ds c hdr) b \<noteq> [] \<Longrightarrow> gather_one c t hdr b nid = Inr (x, b1) \<Longrightarrow>
   gather_loop c t hdr b nid es = gather_loop c t hdr b1 (nid + 1) (es @ [x])"
  by (subst gather_loop.simps)
     (auto simp: gather_one_def new_entry_def split: sum.splits prod.splits)

lemma gather_one_chunk:
  assumes "chunk_ok c hdr (tag, recs, pre)" "passes_gates c (gather_entry t hdr nid tag recs)"
  shows "take (ds c hdr) (tag @ pre @ [0] @ b') = tag"
    and "gather_one c t hdr (tag @ pre @ [0] @ b') nid = Inr (gather_entry t hdr nid tag recs, b')"
proof -
  from assms(1) have len: "length tag = ds c hdr" and wf: "wire_fields recs"
    and enc: "encode_fields recs = Inr pre"
    by (simp_all add: chunk_ok_def)
  show tk: "take (ds c hdr) (tag @ pre @ [0] @ b') = tag"
    using len by simp
  have dr: "drop (ds c hdr) (tag @ pre @ [0] @ b') = pre @ [0] @ b'"
    using len by simp
  have "decode_fields (pre @ [0] @ b') = Inr (recs, b')"
    using wf enc by (rule decode_fields_encoded)
  then have "gather_fields (pre @ [0] @ b')
        \<lparr>entry_t = t, entry_id = nid, head = hdr, ehash = tag, fields_d = []\<rparr>
      = Inr (gather_entry t hdr nid tag recs, b')"
    by (simp add: gather_fields_decode gather_entry_def)
  with assms(2) show "gather_one c t hdr (tag @ pre @ [0] @ b') nid
      = Inr (gather_entry t hdr nid tag recs, b')"
    unfolding gather_one_def tk dr by (simp add: new_entry_def passes_gates_def)
qed

lemma gather_one_shape:
  assumes "gather_one c t hdr b nid = Inr (x, b1)" and ne: "take (ds c hdr) b \<noteq> []"
  shows "\<exists>tag recs pre. chunk_ok c hdr (tag, recs, pre) \<and> b = tag @ pre @ [0] @ b1
           \<and> x = gather_entry t hdr nid tag recs \<and> passes_gates c x"
proof -
  let ?tag = "take (ds c hdr) b"
  let ?e0 = "\<lparr>entry_t = t, entry_id = nid, head = hdr, ehash = ?tag, fields_d = []\<rparr>"
  from assms(1) obtain e1 e2 where gf: "gather_fields (drop (ds c hdr) b) ?e0 = Inr (e1, b1)"
    and rv: "revalidate c e1 = Inr e2" and vs: "validate_struct e2 = Inr x"
    by (auto simp: gather_one_def new_entry_def split: sum.splits)
  from rv have e2: "e2 = e1" by (rule revalidate_Inr)
  from vs have x: "x = e2" by (rule validate_struct_Inr)
  from gf obtain recs where d: "decode_fields (drop (ds c hdr) b) = Inr (recs, b1)"
    and e1: "e1 = foldl (\<lambda>e (name, v). set_field_raw e name v) ?e0 recs"
    by (auto simp: gather_fields_decode split: sum.splits)
  from decode_fields_shape [OF d] obtain pre where wf: "wire_fields recs"
    and enc: "encode_fields recs = Inr pre" and dr: "drop (ds c hdr) b = pre @ [0] @ b1"
    by blast
  from dr have "drop (ds c hdr) b \<noteq> []" by simp
  then have lt: "ds c hdr < length b" by simp
  then have len: "length ?tag = ds c hdr" by simp
  have "b = ?tag @ drop (ds c hdr) b" by simp
  with dr have b: "b = ?tag @ pre @ [0] @ b1" by simp
  show ?thesis
  proof (intro exI conjI)
    show "b = ?tag @ pre @ [0] @ b1" by (rule b)
    show "x = gather_entry t hdr nid ?tag recs" by (simp add: x e2 e1 gather_entry_def)
    show "passes_gates c x" using rv vs x e2 by (simp add: passes_gates_def)
    show "chunk_ok c hdr (?tag, recs, pre)"
      unfolding chunk_ok_def using ne len wf enc by simp
  qed
qed

lemma chunk_bytes_triple: "chunk_bytes (tag, recs, pre) = tag @ pre @ [0]"
  by (simp add: chunk_bytes_def)

lemma chunk_entries_append:
  "chunk_entries t hdr nid (chs @ [(tag, recs, pre)])
     = chunk_entries t hdr nid chs @ [gather_entry t hdr (nid + length chs) tag recs]"
  by (induction chs arbitrary: nid) auto

lemma gather_loop_chunks:
  "list_all (chunk_ok c hdr) chs \<Longrightarrow>
   list_all (passes_gates c) (chunk_entries t hdr nid chs) \<Longrightarrow>
   gather_loop c t hdr (concat (map chunk_bytes chs) @ rest) nid es
     = gather_loop c t hdr rest (nid + length chs) (es @ chunk_entries t hdr nid chs)"
proof (induction chs arbitrary: nid es)
  case Nil
  then show ?case by simp
next
  case (Cons ch chs)
  obtain tag recs pre where ch: "ch = (tag, recs, pre)" by (cases ch)
  let ?x = "gather_entry t hdr nid tag recs"
  let ?b' = "concat (map chunk_bytes chs) @ rest"
  from Cons.prems ch have ok: "chunk_ok c hdr (tag, recs, pre)" and oks: "list_all (chunk_ok c hdr) chs"
    and g: "passes_gates c ?x" and gs: "list_all (passes_gates c) (chunk_entries t hdr (Suc nid) chs)"
    by simp_all
  from ok have ne: "tag \<noteq> []" by (simp add: chunk_ok_def)
  have b: "concat (map chunk_bytes (ch # chs)) @ rest = tag @ pre @ [0] @ ?b'"
    by (simp add: ch chunk_bytes_triple)
  have "gather_loop c t hdr (tag @ pre @ [0] @ ?b') nid es
      = gather_loop c t hdr ?b' (nid + 1) (es @ [?x])"
    using gather_one_chunk [OF ok g, of ?b'] ne by (intro gather_loop_step) simp_all
  also have "\<dots> = gather_loop c t hdr rest (Suc nid + length chs)
      ((es @ [?x]) @ chunk_entries t hdr (Suc nid) chs)"
    using Cons.IH [OF oks gs, of "es @ [?x]"] by simp
  finally show ?case by (simp add: ch chunk_bytes_triple)
qed

lemma gather_loop_failure_shape:
  "gather_loop c t hdr b nid es = (Some err, nid', es') \<Longrightarrow>
   \<exists>chs rest. list_all (chunk_ok c hdr) chs \<and> b = concat (map chunk_bytes chs) @ rest
     \<and> list_all (passes_gates c) (chunk_entries t hdr nid chs)
     \<and> take (ds c hdr) rest \<noteq> [] \<and> gather_one c t hdr rest (nid + length chs) = Inl err
     \<and> nid' = nid + length chs + 1 \<and> es' = es @ chunk_entries t hdr nid chs"
proof (induction c t hdr b nid es rule: gather_loop.induct)
  case (1 c t hdr b nid es)
  show ?case
  proof (cases "take (ds c hdr) b = []")
    case True
    with "1.prems" show ?thesis by (simp add: gather_loop_end)
  next
    case ne: False
    show ?thesis
    proof (cases "gather_one c t hdr b nid")
      case (Inl err')
      with "1.prems" ne have "err' = err" "nid' = nid + 1" "es' = es"
        by (simp_all add: gather_loop_fail)
      with Inl ne show ?thesis
        by (intro exI [of _ "[]"] exI [of _ b]) simp
    next
      case (Inr p)
      obtain x b1 where p: "p = (x, b1)" by (cases p)
      note one = Inr [unfolded p]
      from gather_one_shape [OF one ne] obtain tag recs pre where
        ok: "chunk_ok c hdr (tag, recs, pre)" and b: "b = tag @ pre @ [0] @ b1"
        and x: "x = gather_entry t hdr nid tag recs" and g: "passes_gates c x"
        by blast
      obtain e n1 where new: "new_entry c t hdr (take (ds c hdr) b) [] nid = (e, n1)"
        by (cases "new_entry c t hdr (take (ds c hdr) b) [] nid")
      then have n1: "n1 = nid + 1" by (auto simp: new_entry_def)
      from one new obtain e1 e2 where
        gf: "gather_fields (drop (ds c hdr) b) e = Inr (e1, b1)"
        and rv: "revalidate c e1 = Inr e2" and vs: "validate_struct e2 = Inr x"
        by (auto simp: gather_one_def split: sum.splits)
      from "1.prems" have rec: "gather_loop c t hdr b1 n1 (es @ [x]) = (Some err, nid', es')"
        using gather_loop_step [OF ne one, of es] n1 by simp
      from "1.IH" [OF ne new [symmetric] gf refl rv vs rec]
      obtain chs rest where oks: "list_all (chunk_ok c hdr) chs"
        and b1: "b1 = concat (map chunk_bytes chs) @ rest"
        and gs: "list_all (passes_gates c) (chunk_entries t hdr n1 chs)"
        and rne: "take (ds c hdr) rest \<noteq> []"
        and fail: "gather_one c t hdr rest (n1 + length chs) = Inl err"
        and nid': "nid' = n1 + length chs + 1"
        and es': "es' = (es @ [x]) @ chunk_entries t hdr n1 chs"
        by blast
      show ?thesis
      proof (intro exI [of _ "(tag, recs, pre) # chs"] exI [of _ rest] conjI)
        show "list_all (chunk_ok c hdr) ((tag, recs, pre) # chs)" using ok oks by simp
        show "b = concat (map chunk_bytes ((tag, recs, pre) # chs)) @ rest"
          using b b1 by (simp add: chunk_bytes_triple)
        show "list_all (passes_gates c) (chunk_entries t hdr nid ((tag, recs, pre) # chs))"
          using g gs x n1 by simp
        show "take (ds c hdr) rest \<noteq> []" by (rule rne)
        show "gather_one c t hdr rest (nid + length ((tag, recs, pre) # chs)) = Inl err"
          using fail n1 by simp
        show "nid' = nid + length ((tag, recs, pre) # chs) + 1" using nid' n1 by simp
        show "es' = es @ chunk_entries t hdr nid ((tag, recs, pre) # chs)"
          using es' x n1 by simp
      qed
    qed
  qed
qed

lemma gather_loop_failure_iff:
  "gather_loop c t hdr b nid es = (Some err, nid', es') \<longleftrightarrow>
     (\<exists>chs rest. list_all (chunk_ok c hdr) chs \<and> b = concat (map chunk_bytes chs) @ rest
        \<and> list_all (passes_gates c) (chunk_entries t hdr nid chs)
        \<and> take (ds c hdr) rest \<noteq> [] \<and> gather_one c t hdr rest (nid + length chs) = Inl err
        \<and> nid' = nid + length chs + 1 \<and> es' = es @ chunk_entries t hdr nid chs)"
proof
  assume "gather_loop c t hdr b nid es = (Some err, nid', es')"
  then show "\<exists>chs rest. list_all (chunk_ok c hdr) chs \<and> b = concat (map chunk_bytes chs) @ rest
        \<and> list_all (passes_gates c) (chunk_entries t hdr nid chs)
        \<and> take (ds c hdr) rest \<noteq> [] \<and> gather_one c t hdr rest (nid + length chs) = Inl err
        \<and> nid' = nid + length chs + 1 \<and> es' = es @ chunk_entries t hdr nid chs"
    by (rule gather_loop_failure_shape)
next
  assume "\<exists>chs rest. list_all (chunk_ok c hdr) chs \<and> b = concat (map chunk_bytes chs) @ rest
        \<and> list_all (passes_gates c) (chunk_entries t hdr nid chs)
        \<and> take (ds c hdr) rest \<noteq> [] \<and> gather_one c t hdr rest (nid + length chs) = Inl err
        \<and> nid' = nid + length chs + 1 \<and> es' = es @ chunk_entries t hdr nid chs"
  then obtain chs rest where oks: "list_all (chunk_ok c hdr) chs"
    and b: "b = concat (map chunk_bytes chs) @ rest"
    and gs: "list_all (passes_gates c) (chunk_entries t hdr nid chs)"
    and ne: "take (ds c hdr) rest \<noteq> []"
    and fail: "gather_one c t hdr rest (nid + length chs) = Inl err"
    and res: "nid' = nid + length chs + 1" "es' = es @ chunk_entries t hdr nid chs"
    by blast
  have "gather_loop c t hdr b nid es
      = gather_loop c t hdr rest (nid + length chs) (es @ chunk_entries t hdr nid chs)"
    unfolding b using oks gs by (rule gather_loop_chunks)
  also have "\<dots> = (Some err, nid + length chs + 1, es @ chunk_entries t hdr nid chs)"
    using ne fail by (rule gather_loop_fail)
  finally show "gather_loop c t hdr b nid es = (Some err, nid', es')"
    by (simp add: res)
qed

text \<open>
  C3, as amended. A failed \<open>add_entry\<close> leaves the collection as it was. A \<open>gather\<close>
  whose \<open>decrypt\<close> fails leaves it as it was too. A \<open>gather\<close> that fails later stops at
  the first entry that fails and keeps what it appended before: it raises \<open>err\<close> exactly
  when the blob is a sequence of entry records whose entries pass both gates, followed by
  bytes whose first entry fails with \<open>err\<close>; the entry list is then the list before
  the call followed by the entries of those records, in the order of the blob, and
  nothing read from the failing entry or after it is in the list.
\<close>

theorem failed_gather_keeps_admitted:
  "(add_entry c self e = (Some err, self') \<longrightarrow> self' = self)
   \<and> (decrypt c (chead self) = Inl err \<longrightarrow> gather c t nid self = (Some err, nid, self))
   \<and> (decrypt c (chead self) = Inr hdr \<longrightarrow>
        (gather c t nid self = (Some err, nid', self') \<longleftrightarrow>
          (\<exists>chs rest. list_all (chunk_ok c hdr) chs
             \<and> entries hdr = concat (map chunk_bytes chs) @ rest
             \<and> list_all (passes_gates c) (chunk_entries t hdr nid chs)
             \<and> take (ds c hdr) rest \<noteq> []
             \<and> gather_one c t hdr rest (nid + length chs) = Inl err
             \<and> nid' = nid + length chs + 1
             \<and> self' = self\<lparr>chead := hdr, ents := ents self @ chunk_entries t hdr nid chs\<rparr>)))"
proof (intro conjI impI)
  assume "add_entry c self e = (Some err, self')"
  then show "self' = self"
    by (auto simp: add_entry_def split: sum.splits)
next
  assume "decrypt c (chead self) = Inl err"
  then show "gather c t nid self = (Some err, nid, self)"
    by (simp add: gather_def)
next
  assume d: "decrypt c (chead self) = Inr hdr"
  show "gather c t nid self = (Some err, nid', self') \<longleftrightarrow>
          (\<exists>chs rest. list_all (chunk_ok c hdr) chs
             \<and> entries hdr = concat (map chunk_bytes chs) @ rest
             \<and> list_all (passes_gates c) (chunk_entries t hdr nid chs)
             \<and> take (ds c hdr) rest \<noteq> []
             \<and> gather_one c t hdr rest (nid + length chs) = Inl err
             \<and> nid' = nid + length chs + 1
             \<and> self' = self\<lparr>chead := hdr, ents := ents self @ chunk_entries t hdr nid chs\<rparr>)"
    (is "?L \<longleftrightarrow> ?R")
  proof (cases "entries hdr = []")
    case True
    then have "\<not> ?L" using d by (simp add: gather_def)
    moreover have "\<not> ?R" using True by auto
    ultimately show ?thesis by blast
  next
    case False
    have "?L \<longleftrightarrow> (\<exists>es'. gather_loop c t hdr (entries hdr) nid (ents self) = (Some err, nid', es')
        \<and> self' = self\<lparr>chead := hdr, ents := es'\<rparr>)"
      using d False by (auto simp: gather_def split: prod.splits)
    also have "\<dots> \<longleftrightarrow> ?R"
      unfolding gather_loop_failure_iff by blast
    finally show ?thesis .
  qed
qed

theorem failed_gather_keeps_admitted_witness:
  "add_entry toy \<lparr>ents = [], chead = hdr0\<rparr> (pwd0\<lparr>ehash := [1]\<rparr>)
     = (Some (StructureError 7), \<lparr>ents = [], chead = hdr0\<rparr>)
   \<and> gather toy PdbRawEntry 0 \<lparr>ents = [], chead = hdr0\<lparr>entries := blob2\<rparr>\<rparr>
     = (Some (DataIntegrityError 1 [9]), 2,
        \<lparr>ents = [admitted0], chead = hdr0\<lparr>entries := blob2\<rparr>\<rparr>)"
proof -
  let ?h = "hdr0\<lparr>entries := blob2\<rparr>"
  let ?S = "\<lparr>ents = [], chead = ?h\<rparr>"
  have a: "add_entry toy \<lparr>ents = [], chead = hdr0\<rparr> (pwd0\<lparr>ehash := [1]\<rparr>)
     = (Some (StructureError 7), \<lparr>ents = [], chead = hdr0\<rparr>)"
    by (simp add: add_entry_def revalidate_def hash_ok_def entry_def validate_struct_def
          all_fields_def pwd0_def toy_def)
  from mp [OF conjunct1 [OF failed_gather_keeps_admitted], OF a]
  have same: "\<lparr>ents = [], chead = hdr0\<rparr> = \<lparr>ents = [], chead = hdr0\<rparr>" .
  have d: "decrypt toy (chead ?S) = Inr ?h" by (simp add: toy_def)
  have x: "gather_entry PdbRawEntry ?h 0 [1] [] = admitted0"
    by (simp add: gather_entry_def admitted0_def)
  have one: "gather_one toy PdbRawEntry ?h [9, 0] 1 = Inl (DataIntegrityError 1 [9])"
    by (simp add: gather_one_def gather_fields.simps new_entry_def revalidate_def hash_ok_def
          entry_def BL_def toy_def)
  have ok: "chunk_ok toy ?h ([1], [], [])"
    by (simp add: chunk_ok_def wire_fields_def toy_def)
  have gate: "passes_gates toy admitted0"
    by (simp add: passes_gates_def revalidate_def hash_ok_def entry_def validate_struct_def
          admitted0_def toy_def)
  have "\<exists>chs rest. list_all (chunk_ok toy ?h) chs
      \<and> entries ?h = concat (map chunk_bytes chs) @ rest
      \<and> list_all (passes_gates toy) (chunk_entries PdbRawEntry ?h 0 chs)
      \<and> take (ds toy ?h) rest \<noteq> []
      \<and> gather_one toy PdbRawEntry ?h rest (0 + length chs) = Inl (DataIntegrityError 1 [9])
      \<and> 2 = 0 + length chs + 1
      \<and> \<lparr>ents = [admitted0], chead = ?h\<rparr>
          = ?S\<lparr>chead := ?h, ents := ents ?S @ chunk_entries PdbRawEntry ?h 0 chs\<rparr>"
  proof (intro exI [of _ "[([1], [], [])]"] exI [of _ "[9, 0]"] conjI)
    show "list_all (chunk_ok toy ?h) [([1], [], [])]" using ok by simp
    show "entries ?h = concat (map chunk_bytes [([1], [], [])]) @ [9, 0]"
      by (simp add: chunk_bytes_triple blob2_def)
    show "list_all (passes_gates toy) (chunk_entries PdbRawEntry ?h 0 [([1], [], [])])"
      using gate by (simp add: x)
    show "take (ds toy ?h) [9, 0] \<noteq> []" by (simp add: toy_def)
    show "gather_one toy PdbRawEntry ?h [9, 0] (0 + length [([1], [], [])])
        = Inl (DataIntegrityError 1 [9])"
      using one by simp
    show "2 = 0 + length [([1], [], [])] + 1" by simp
    show "\<lparr>ents = [admitted0], chead = ?h\<rparr>
        = ?S\<lparr>chead := ?h, ents := ents ?S @ chunk_entries PdbRawEntry ?h 0 [([1], [], [])]\<rparr>"
      by (simp add: x)
  qed
  then have "gather toy PdbRawEntry 0 ?S
      = (Some (DataIntegrityError 1 [9]), 2, \<lparr>ents = [admitted0], chead = ?h\<rparr>)"
    by (rule iffD2 [OF mp [OF conjunct2 [OF conjunct2 [OF failed_gather_keeps_admitted]] d]])
  with a show ?thesis by (rule conjI)
qed

text \<open>
  C3 as stated fails: on a blob whose first entry is valid and whose second has a wrong
  tag, \<open>gather\<close> raises and leaves the first entry in the collection.
\<close>

theorem gather_partial_admission_counterexample:
  "gather toy PdbRawEntry 0 \<lparr>ents = [], chead = hdr0\<lparr>entries := blob2\<rparr>\<rparr>
     = (Some (DataIntegrityError 1 [9]), 2,
        \<lparr>ents = [admitted0], chead = hdr0\<lparr>entries := blob2\<rparr>\<rparr>)
   \<and> ents \<lparr>ents = [admitted0], chead = hdr0\<lparr>entries := blob2\<rparr>\<rparr>
       \<noteq> ents \<lparr>ents = [], chead = hdr0\<lparr>entries := blob2\<rparr>\<rparr>"
  by (simp add: gather_blob2)

end
